theory Spec2Isabelle
  imports Complex_Main
begin

section \<open>The transformation cache of the sass plugin (src/plugin.ts)\<close>

text \<open>
  The plugin keeps a two-level JavaScript \<open>Map\<close>: the outer key is the resolution
  directory of the import (\<open>args.resolveDir\<close>), the inner key is the imported path
  (\<open>args.path\<close>). An inner value is a \<open>CachedResult\<close>: the type the module was
  compiled as, the result of the transform and the largest modification time seen over
  the result's watch files.

  Everything the closure \<open>cached\<close> reads from its environment is a parameter of the
  model: \<open>resolve\<close> and \<open>transform\<close> (parameters of the source function as well),
  \<open>typeOf\<close>, and the file system as \<open>stat\<close>, a partial function from a file name
  to its \<open>mtimeMs\<close> (\<open>None\<close>: \<open>fsp.stat\<close> rejects). A rejected promise or a thrown
  exception is the left injection of a sum. The calls made to \<open>transform\<close> are
  returned as a list, so that the number of recomputations can be counted.
\<close>

datatype loader = CssLoader | JsLoader

record onLoadResult =
  contents :: string
  loader :: loader
  resolveDir :: string
  watchFiles :: "string list"

record cachedResult =
  ctype :: string
  mtimeMs :: real
  result :: onLoadResult

record onResolveArgs =
  arg_path :: string
  arg_resolveDir :: string
  arg_importer :: string

datatype error = StatError string | ResolveError string | TransformError string | TypeError

type_synonym cache = "string \<rightharpoonup> (string \<rightharpoonup> cachedResult)"

type_synonym transform_fn = "string \<Rightarrow> string \<Rightarrow> error + onLoadResult"

text \<open>\<open>collectStats\<close>: \<open>Promise.all\<close> over \<open>fsp.stat\<close>; one rejection rejects the whole.\<close>

fun collectStats :: "(string \<rightharpoonup> real) \<Rightarrow> string list \<Rightarrow> error + real list" where
  "collectStats stat [] = Inr []"
| "collectStats stat (f # fs) =
     (case stat f of
        None \<Rightarrow> Inl (StatError f)
      | Some m \<Rightarrow> (case collectStats stat fs of
                    Inl e \<Rightarrow> Inl e
                  | Inr ms \<Rightarrow> Inr (m # ms)))"

text \<open>\<open>maxMtimeMs\<close>: \<open>stats.reduce((max, {mtimeMs}) => Math.max(max, mtimeMs), 0)\<close>.\<close>

definition maxMtimeMs :: "real list \<Rightarrow> real" where
  "maxMtimeMs stats = foldl max 0 stats"

text \<open>
  The loop \<open>for (const {mtimeMs} of stats)\<close> of the hit branch. \<open>all\<close> is the whole list
  of stats (the argument of \<open>maxMtimeMs\<close>), the last argument is what is left to visit. At the
  first stat newer than the entry's mark the transform runs on \<open>watchFiles[0]\<close> and the
  loop breaks. \<open>watchFiles[0]\<close> of an empty array is \<open>undefined\<close>, on which the transform's
  \<open>path.endsWith\<close> raises a TypeError.
\<close>

fun refresh :: "transform_fn \<Rightarrow> cachedResult \<Rightarrow> real list \<Rightarrow> real list
    \<Rightarrow> (error + cachedResult) \<times> (string \<times> string) list" where
  "refresh transform c all [] = (Inr c, [])"
| "refresh transform c all (m # ms) =
     (if m > mtimeMs c then
        (case watchFiles (result c) of
           [] \<Rightarrow> (Inl TypeError, [])
         | f0 # _ \<Rightarrow>
             (case transform f0 (ctype c) of
                Inl e \<Rightarrow> (Inl e, [(f0, ctype c)])
              | Inr r \<Rightarrow> (Inr (c\<lparr>result := r, mtimeMs := maxMtimeMs all\<rparr>), [(f0, ctype c)])))
      else refresh transform c all ms)"

text \<open>Reading one entry: \<open>cache.get(scope)?.get(path)\<close>.\<close>

definition lookup :: "cache \<Rightarrow> string \<Rightarrow> string \<Rightarrow> cachedResult option" where
  "lookup cache scope p = (case cache scope of None \<Rightarrow> None | Some grp \<Rightarrow> grp p)"

text \<open>
  \<open>cached(resolve, transform)\<close> applied to the \<open>pluginData\<close> of an \<open>onLoad\<close> call. The
  result is the value the promise settles with, the cache afterwards, and the calls made to
  \<open>transform\<close>. The group of the scope is created before anything can fail.
\<close>

definition cached :: "(onResolveArgs \<Rightarrow> error + string) \<Rightarrow> (onResolveArgs \<Rightarrow> string)
    \<Rightarrow> transform_fn \<Rightarrow> (string \<rightharpoonup> real) \<Rightarrow> cache \<Rightarrow> onResolveArgs
    \<Rightarrow> (error + onLoadResult) \<times> cache \<times> (string \<times> string) list" where
  "cached resolve typeOf transform stat cache args =
     (let scope = arg_resolveDir args;
          grp = (case cache scope of None \<Rightarrow> Map.empty | Some g \<Rightarrow> g);
          cache1 = (case cache scope of None \<Rightarrow> cache(scope \<mapsto> grp) | Some g \<Rightarrow> cache)
      in case grp (arg_path args) of
           Some c \<Rightarrow>
             (case collectStats stat (watchFiles (result c)) of
                Inl e \<Rightarrow> (Inl e, cache1, [])
              | Inr stats \<Rightarrow>
                  (case refresh transform c stats stats of
                     (Inl e, calls) \<Rightarrow> (Inl e, cache1, calls)
                   | (Inr c', calls) \<Rightarrow>
                       (Inr (result c'), cache1(scope \<mapsto> grp(arg_path args \<mapsto> c')), calls)))
         | None \<Rightarrow>
             (case resolve args of
                Inl e \<Rightarrow> (Inl e, cache1, [])
              | Inr filename \<Rightarrow>
                  (let type = typeOf args in
                   case transform filename type of
                     Inl e \<Rightarrow> (Inl e, cache1, [(filename, type)])
                   | Inr r \<Rightarrow>
                       (case collectStats stat (watchFiles r) of
                          Inl e \<Rightarrow> (Inl e, cache1, [(filename, type)])
                        | Inr stats \<Rightarrow>
                            (Inr r,
                             cache1(scope \<mapsto> grp(arg_path args \<mapsto>
                               \<lparr>ctype = type, mtimeMs = maxMtimeMs stats, result = r\<rparr>)),
                             [(filename, type)])))))"

section \<open>JavaScript string operations used by the watch coordinator\<close>

text \<open>
  A JavaScript string is a sequence of code units; the model takes \<open>string\<close>, one
  \<open>char\<close> for one unit. All the patterns searched for are ASCII.
  \<open>index_in pat s\<close> is the offset of the first occurrence of \<open>pat\<close> in \<open>s\<close>;
  \<open>indexOf s pat from\<close> is \<open>s.indexOf(pat, from)\<close>, \<open>-1\<close> when there is none, with
  \<open>from\<close> clamped to the length as JavaScript does.
\<close>

fun index_in :: "string \<Rightarrow> string \<Rightarrow> nat option" where
  "index_in pat [] = (if pat = [] then Some 0 else None)"
| "index_in pat (c # cs) =
     (if take (length pat) (c # cs) = pat then Some 0
      else map_option Suc (index_in pat cs))"

definition indexOf :: "string \<Rightarrow> string \<Rightarrow> nat \<Rightarrow> int" where
  "indexOf s pat from =
     (let k = min from (length s)
      in case index_in pat (drop k s) of None \<Rightarrow> - 1 | Some d \<Rightarrow> int (k + d))"

text \<open>\<open>s.split(c)\<close> for a one-character separator: never empty, \<open>\<close> gives \<open>[]\<close>.\<close>

fun split_on :: "char \<Rightarrow> string \<Rightarrow> string list" where
  "split_on c [] = [[]]"
| "split_on c (x # xs) =
     (if x = c then [] # split_on c xs
      else (case split_on c xs of
              [] \<Rightarrow> [[x]]
            | w # ws \<Rightarrow> (x # w) # ws))"

text \<open>
  \<open>inputKey.includes(':') ? inputKey.split(':')[1] : inputKey\<close>. Element 1 exists whenever
  the key has a colon (lemma \<open>split_on_length\<close> below).
\<close>

definition input_of_key :: "string \<Rightarrow> string" where
  "input_of_key inputKey =
     (if CHR '':'' \<in> set inputKey then split_on CHR '':'' inputKey ! 1 else inputKey)"

section \<open>The incremental build controller (incremental-build)\<close>

subsection \<open>Results of the bundler\<close>

text \<open>
  A rebuild handle is a function of the bundler; the model names them: the first one is
  \<open>() => build(options)\<close>, generation \<open>n\<close> of the bundler returns \<open>Incremental n\<close>, and
  \<open>TriggerBuild\<close> is the controller's own \<open>triggerBuild\<close>, which \<open>incrementalBuild\<close>
  returns to its caller. An optional field of \<open>BuildResult\<close> is an option; a JavaScript
  object, array or function is truthy, so \<open>!result.metafile\<close> holds exactly for \<open>None\<close>.
\<close>

datatype handle = InitialBuild | Incremental nat | TriggerBuild

record metafile =
  inputs :: "string list"
  outputs :: "string list"

record buildResult =
  errors :: "string list"
  warnings :: "string list"
  metafile :: "metafile option"
  outputFiles :: "string list option"
  r_rebuild :: "handle option"

datatype build_error = Error string

definition validateResult :: "buildResult \<Rightarrow> build_error + buildResult" where
  \<open>validateResult res =
     (if metafile res = None then Inl (Error ''incrementalBuild: "metafile" option must be "true"'')
      else if outputFiles res = None then Inl (Error ''incrementalBuild: "write" option must be "false"'')
      else if r_rebuild res = None then Inl (Error ''incrementalBuild: "incremental" option must be "true"'')
      else Inr res)\<close>

definition NULL_RESULT :: buildResult where
  "NULL_RESULT = \<lparr>errors = [], warnings = [],
     metafile = Some \<lparr>inputs = [], outputs = []\<rparr>, outputFiles = Some [], r_rebuild = None\<rparr>"

subsection \<open>The two file watchers\<close>

text \<open>
  The watchers are objects of the chokidar library. The model keeps of a watcher what the
  controller can change: the paths under watch, the number of \<open>once\<close> listeners
  registered, and whether the watcher is closed. \<open>close\<close> on an open watcher releases
  every watched path and removes all listeners; on a watcher that is closed already it
  returns at once and changes nothing, so listeners registered on a closed watcher stay.
  \<open>add\<close> opens the watcher again and puts paths under watch; \<open>unwatch\<close> takes paths
  out and does nothing on a closed watcher; \<open>once\<close> registers a listener, open or closed.
\<close>

record watcher =
  watched :: "string set"
  listeners :: nat
  is_closed :: bool

definition w_close :: "watcher \<Rightarrow> watcher" where
  "w_close w = (if is_closed w then w else \<lparr>watched = {}, listeners = 0, is_closed = True\<rparr>)"

definition w_unwatch :: "string set \<Rightarrow> watcher \<Rightarrow> watcher" where
  "w_unwatch ps w = (if is_closed w then w else w\<lparr>watched := watched w - ps\<rparr>)"

definition w_add :: "string set \<Rightarrow> watcher \<Rightarrow> watcher" where
  "w_add ps w = w\<lparr>watched := watched w \<union> ps, is_closed := False\<rparr>"

definition w_once :: "watcher \<Rightarrow> watcher" where
  "w_once w = w\<lparr>listeners := Suc (listeners w)\<rparr>"

subsection \<open>State of one \<open>incrementalBuild\<close> session\<close>

text \<open>
  The variables the closures of \<open>incrementalBuild\<close> share. \<open>timers\<close> counts the
  \<open>setTimeout\<close> callbacks of \<open>startWatchers\<close> not yet run, \<open>pending\<close> the
  \<open>.then(triggerBuild)\<close> continuations a handler has scheduled and that have not started,
  \<open>waiters\<close> the \<open>once('end')\<close> listeners of \<open>wait()\<close>. \<open>invoked\<close> is a ghost
  field: the rebuild handles called so far, latest first.
\<close>

record controller =
  rebuild :: handle
  running :: bool
  watchedInputs :: "string set"
  watchedModules :: "string set"
  inputWatcher :: watcher
  moduleWatcher :: watcher
  timers :: nat
  pending :: nat
  waiters :: nat
  invoked :: "handle list"

definition init_controller :: controller where
  "init_controller = \<lparr>rebuild = InitialBuild, running = False,
     watchedInputs = {}, watchedModules = {},
     inputWatcher = \<lparr>watched = {}, listeners = 0, is_closed = False\<rparr>,
     moduleWatcher = \<lparr>watched = {}, listeners = 0, is_closed = False\<rparr>,
     timers = 0, pending = 0, waiters = 0, invoked = []\<rparr>"

text \<open>\<open>startWatchers\<close> only sets a timer; \<open>timer_fire\<close> is its callback.\<close>

definition startWatchers :: "controller \<Rightarrow> controller" where
  "startWatchers s = s\<lparr>timers := Suc (timers s)\<rparr>"

definition timer_fire :: "controller \<Rightarrow> controller" where
  "timer_fire s =
     (if timers s = 0 then s
      else (let s1 = s\<lparr>timers := timers s - 1\<rparr>
            in if running s1 then s1
               else s1\<lparr>inputWatcher := w_once (inputWatcher s1),
                       moduleWatcher := w_once (moduleWatcher s1)\<rparr>))"

definition emit_end :: "controller \<Rightarrow> controller" where
  "emit_end s = s\<lparr>waiters := 0\<rparr>"

text \<open>\<open>wait()\<close>: \<open>True\<close> when the promise returned is already resolved.\<close>

definition wait :: "controller \<Rightarrow> bool \<times> controller" where
  "wait s = (if \<not> running s then (True, s) else (False, s\<lparr>waiters := Suc (waiters s)\<rparr>))"

text \<open>
  The body of the loop over \<open>Object.keys(result.metafile.inputs)\<close>, on the pair
  \<open>(addedInputs, addedModules)\<close>, and the loop.
\<close>

definition scan_step :: "string set \<Rightarrow> string set \<Rightarrow> string set \<times> string set \<Rightarrow> string
    \<Rightarrow> string set \<times> string set" where
  "scan_step wInputs wModules acc inputKey =
     (let input = input_of_key inputKey;
          index = indexOf input ''node_modules'' 0
      in if index \<ge> 0 then
           (let modIndex = indexOf input ''/'' (nat index + length ''node_modules'' + 1)
            in if modIndex > 0 then
                 (let modp = take (nat modIndex) input
                  in if modp \<notin> wModules then (fst acc, insert modp (snd acc)) else acc)
               else acc)
         else (if input \<notin> wInputs then (insert input (fst acc), snd acc) else acc))"

definition scan_inputs :: "string set \<Rightarrow> string set \<Rightarrow> string list \<Rightarrow> string set \<times> string set" where
  "scan_inputs wInputs wModules keys = foldl (scan_step wInputs wModules) ({}, {}) keys"

text \<open>
  \<open>triggerBuild\<close> is cut at the call of the bundler. \<open>triggerBuild_begin\<close> is the part
  up to and including \<open>rebuild()\<close>: the flag, the two \<open>close()\<close> calls, the invocation of
  the current handle. \<open>triggerBuild_finish\<close> is the part after the bundler has settled:
  \<open>outcome\<close> is \<open>None\<close> when \<open>rebuild()\<close> rejected and the result otherwise,
  \<open>hook_ok\<close> tells whether \<open>onBuildResult\<close> completed without throwing. It returns the
  value \<open>triggerBuild\<close> resolves with. \<open>triggerBuild\<close> does not look at
  \<open>running\<close>: both parts apply in every state.

  The first part has two \<open>await\<close>s of its own, behind each \<open>close()\<close>, and other
  callbacks can run there. Its three steps are \<open>triggerBuild_enter\<close> (the flag and the
  \<open>close()\<close> of the input watcher), \<open>triggerBuild_close_module\<close> and
  \<open>triggerBuild_invoke\<close>; \<open>triggerBuild_begin\<close> is the three steps with nothing in
  between (lemma \<open>triggerBuild_begin_steps\<close>). Between the bundler's answer and the end
  of \<open>onBuildResult\<close> nothing of the state is read or written, so the second part is one
  step, taken when the hook has settled.
\<close>

definition triggerBuild_enter :: "controller \<Rightarrow> controller" where
  "triggerBuild_enter s = s\<lparr>running := True, inputWatcher := w_close (inputWatcher s)\<rparr>"

definition triggerBuild_close_module :: "controller \<Rightarrow> controller" where
  "triggerBuild_close_module s = s\<lparr>moduleWatcher := w_close (moduleWatcher s)\<rparr>"

definition triggerBuild_invoke :: "controller \<Rightarrow> controller" where
  "triggerBuild_invoke s = s\<lparr>invoked := rebuild s # invoked s\<rparr>"

definition triggerBuild_begin :: "controller \<Rightarrow> controller" where
  "triggerBuild_begin s =
     s\<lparr>running := True,
       inputWatcher := w_close (inputWatcher s),
       moduleWatcher := w_close (moduleWatcher s),
       invoked := rebuild s # invoked s\<rparr>"

definition triggerBuild_failed :: "controller \<Rightarrow> buildResult \<times> controller" where
  "triggerBuild_failed s =
     (NULL_RESULT\<lparr>r_rebuild := Some (rebuild s)\<rparr>,
      startWatchers ((emit_end s)\<lparr>running := False\<rparr>))"

definition triggerBuild_finish :: "buildResult option \<Rightarrow> bool \<Rightarrow> controller
    \<Rightarrow> buildResult \<times> controller" where
  "triggerBuild_finish outcome hook_ok s =
     (case outcome of
        None \<Rightarrow> triggerBuild_failed s
      | Some res \<Rightarrow>
          (case validateResult res of
             Inl e \<Rightarrow> triggerBuild_failed s
           | Inr res \<Rightarrow>
               if \<not> hook_ok then triggerBuild_failed s
               else
                 (case (metafile res, r_rebuild res) of
                    (Some m, Some h) \<Rightarrow>
                      (let (addedInputs, addedModules) =
                             scan_inputs (watchedInputs s) (watchedModules s) (inputs m);
                           removedInputs = {i \<in> watchedInputs s. i \<notin> addedInputs};
                           removedModules = {d \<in> watchedModules s. d \<notin> addedModules};
                           s1 = s\<lparr>inputWatcher := w_unwatch removedInputs (inputWatcher s),
                                  moduleWatcher := w_unwatch removedModules (moduleWatcher s)\<rparr>;
                           s2 = s1\<lparr>inputWatcher := w_add addedInputs (inputWatcher s1),
                                   moduleWatcher := w_add addedModules (moduleWatcher s1)\<rparr>;
                           s3 = (emit_end s2)\<lparr>running := False, rebuild := h\<rparr>
                       in (res, startWatchers s3))
                  | _ \<Rightarrow> triggerBuild_failed s)))"

text \<open>
  The watch handlers. Each returns at once while \<open>running\<close>; otherwise it calls the
  \<open>onWatchEvent\<close> hook and chains \<open>triggerBuild\<close> behind it (\<open>hook_ok\<close>: the hook did
  not throw; a throw is logged and nothing is chained). \<open>run_pending\<close> starts one chained
  \<open>triggerBuild\<close>: its first step.
\<close>

definition onInputEvent :: "bool \<Rightarrow> controller \<Rightarrow> controller" where
  "onInputEvent hook_ok s =
     (if running s then s
      else if hook_ok then s\<lparr>pending := Suc (pending s)\<rparr> else s)"

definition onModuleEvent :: "bool \<Rightarrow> controller \<Rightarrow> controller" where
  "onModuleEvent hook_ok s =
     (if running s then s
      else if hook_ok then s\<lparr>pending := Suc (pending s)\<rparr> else s)"

definition run_pending :: "controller \<Rightarrow> controller" where
  "run_pending s =
     (if pending s = 0 then s else triggerBuild_enter (s\<lparr>pending := pending s - 1\<rparr>))"

text \<open>
  A change of \<open>path\<close> on disk, as the watchers can see it. \<open>reports_input\<close> and
  \<open>reports_module\<close> are upper bounds of what the two chokidar watchers report. A closed
  watcher reports nothing. The input watcher holds files and reports events only for a
  file it holds (less where its \<open>ignored\<close> patterns match). The module watcher holds directories
  and is created with \<open>depth: 2\<close>: it reports a change of a file below a directory it
  holds with at most two directories in between (its listener is for \<open>change\<close> events
  only). The watcher that reports calls its \<open>once\<close> listeners, which are thereby removed.
  The model delivers every change within these bounds; it is used for what a change can
  not do, and for what must hold when a change did something.
\<close>

definition below_within :: "string \<Rightarrow> string \<Rightarrow> nat \<Rightarrow> bool" where
  "below_within d path n =
     (take (Suc (length d)) path = d @ ''/''
      \<and> length (filter (\<lambda>c. c = CHR ''/'') (drop (Suc (length d)) path)) \<le> n)"

definition reports_input :: "watcher \<Rightarrow> string \<Rightarrow> bool" where
  "reports_input w path = (\<not> is_closed w \<and> path \<in> watched w)"

definition reports_module :: "watcher \<Rightarrow> string \<Rightarrow> bool" where
  "reports_module w path = (\<not> is_closed w \<and> (\<exists>d \<in> watched w. below_within d path 2))"

definition fs_change :: "string \<Rightarrow> bool \<Rightarrow> controller \<Rightarrow> controller" where
  "fs_change path hook_ok s =
     (let s1 = (if reports_input (inputWatcher s) path \<and> listeners (inputWatcher s) > 0
                then ((onInputEvent hook_ok) ^^ listeners (inputWatcher s))
                       (s\<lparr>inputWatcher := (inputWatcher s)\<lparr>listeners := 0\<rparr>\<rparr>)
                else s)
      in if reports_module (moduleWatcher s1) path \<and> listeners (moduleWatcher s1) > 0
         then ((onModuleEvent hook_ok) ^^ listeners (moduleWatcher s1))
                (s1\<lparr>moduleWatcher := (moduleWatcher s1)\<lparr>listeners := 0\<rparr>\<rparr>)
         else s1)"

text \<open>
  \<open>incrementalBuild\<close>: the first build runs at once; its result is validated again and
  returned with \<open>triggerBuild\<close> as its rebuild handle.
\<close>

definition incrementalBuild :: "buildResult option \<Rightarrow> bool
    \<Rightarrow> (build_error + buildResult) \<times> controller" where
  "incrementalBuild outcome hook_ok =
     (let (initialResult, s) = triggerBuild_finish outcome hook_ok (triggerBuild_begin init_controller)
      in case validateResult initialResult of
           Inl e \<Rightarrow> (Inl e, s)
         | Inr res \<Rightarrow> (Inr (res\<lparr>r_rebuild := Some TriggerBuild\<rparr>), s))"

text \<open>
  The states a session can be in: any interleaving of the callbacks and steps above, from
  the state \<open>incrementalBuild\<close> sets up. (A superset of the real interleavings: a step of
  \<open>triggerBuild\<close> is taken only by a call that has taken the steps before it.)
\<close>

inductive reachable :: "controller \<Rightarrow> bool" where
  r_init: "reachable init_controller"
| r_enter: "reachable s \<Longrightarrow> reachable (triggerBuild_enter s)"
| r_close_module: "reachable s \<Longrightarrow> reachable (triggerBuild_close_module s)"
| r_invoke: "reachable s \<Longrightarrow> reachable (triggerBuild_invoke s)"
| r_finish: "reachable s \<Longrightarrow> reachable (snd (triggerBuild_finish outcome hook_ok s))"
| r_timer: "reachable s \<Longrightarrow> reachable (timer_fire s)"
| r_change: "reachable s \<Longrightarrow> reachable (fs_change path hook_ok s)"
| r_pending: "reachable s \<Longrightarrow> reachable (run_pending s)"
| r_wait: "reachable s \<Longrightarrow> reachable (snd (wait s))"

section \<open>The request gate of the development server (esbd-serve)\<close>

text \<open>
  A \<open>serve-static\<close> handler either answers the request or calls \<open>next\<close>; it is a partial
  function from the request URL to the response. The handler of the build output directory
  (\<open>fallthrough: false\<close>) passes an error to \<open>next\<close>, which the callback of
  \<open>handleRequest\<close> does not look at. \<open>parseUrl\<close> stands for
  \<open>new URL(req.url, rootUrl)\<close> and gives the pathname, \<open>None\<close> when the constructor
  throws (as on the request target \<open>//\<close>). \<open>stripPublicPath\<close> stands for the rewriting
  of \<open>req.url\<close> from the pathname that is done when \<open>publicPath\<close> is not empty; it
  builds a URL too and can throw. \<open>indexOutputPath\<close> stands for
  \<open>allWriteOptions[0].template.outputPath\<close>.
\<close>

datatype response =
    File string string
  | IndexHtml string
  | NotFound404
  | ServerError
  | Other string

record serveConfig =
  parseUrl :: "string \<rightharpoonup> string"
  outputHandler :: "string \<rightharpoonup> response"
  servedirHandler :: "(string \<rightharpoonup> response) option"
  rewrite :: bool
  publicPath :: string
  stripPublicPath :: "string \<rightharpoonup> string"
  indexOutputPath :: string
  lrHandler :: "(string \<Rightarrow> bool) option"

definition staticHandler :: "serveConfig \<Rightarrow> string \<Rightarrow> response \<Rightarrow> response" where
  "staticHandler cfg url next =
     (case servedirHandler cfg of
        Some servedirH \<Rightarrow>
          (case servedirH url of
             Some r \<Rightarrow> r
           | None \<Rightarrow> (case outputHandler cfg url of Some r \<Rightarrow> r | None \<Rightarrow> next))
      | None \<Rightarrow> (case outputHandler cfg url of Some r \<Rightarrow> r | None \<Rightarrow> next))"

text \<open>
  The part of \<open>handleRequest\<close> behind \<open>await context.wait()\<close>, for the request URL and
  the pathname parsed from it. An exception in it is caught by the \<open>catch\<close> behind
  \<open>handleRequest()\<close>, which answers with status 500.
\<close>

definition handleRequest_settled :: "serveConfig \<Rightarrow> string \<Rightarrow> string \<Rightarrow> response" where
  "handleRequest_settled cfg url pathname =
     (let fallback = (if rewrite cfg then IndexHtml (indexOutputPath cfg) else NotFound404)
      in if publicPath cfg \<noteq> [] then
           (case stripPublicPath cfg pathname of
              None \<Rightarrow> ServerError
            | Some url1 \<Rightarrow> staticHandler cfg url1 fallback)
         else staticHandler cfg url fallback)"

text \<open>
  The callback of \<open>createServer\<close>. A request without URL is dropped. The URL is parsed
  before anything else and outside every \<open>try\<close>: when that throws, the exception leaves
  the callback. A request the live-reload handler takes is not gated. Any other request
  awaits \<open>context.wait()\<close>. That function belongs to the module \<open>./incremental-build\<close>
  the server imports; the model takes its outcome as the parameter \<open>building\<close>: the
  promise is pending when a build is in flight and resolved otherwise. A parked request
  runs \<open>handleRequest_settled\<close> when the promise resolves.
\<close>

datatype reply = Dropped | Threw | Livereload | Parked | Answered response

definition onRequest :: "serveConfig \<Rightarrow> bool \<Rightarrow> string option \<Rightarrow> reply" where
  "onRequest cfg building req_url =
     (case req_url of
        None \<Rightarrow> Dropped
      | Some url \<Rightarrow>
          (case parseUrl cfg url of
             None \<Rightarrow> Threw
           | Some pathname \<Rightarrow>
               (let handled = (case lrHandler cfg of None \<Rightarrow> False | Some h \<Rightarrow> h url)
                in if handled then Livereload
                   else if building then Parked
                   else Answered (handleRequest_settled cfg url pathname))))"

text \<open>
  The resolution order in the words of the specification, to compare with: the build
  output directory first, then the secondary static root if there is one, then the index
  file in rewrite mode, else not found.
\<close>

definition spec_resolution :: "serveConfig \<Rightarrow> string \<Rightarrow> response" where
  "spec_resolution cfg url =
     (case outputHandler cfg url of
        Some r \<Rightarrow> r
      | None \<Rightarrow>
          (case (case servedirHandler cfg of None \<Rightarrow> None | Some servedirH \<Rightarrow> servedirH url) of
             Some r \<Rightarrow> r
           | None \<Rightarrow> if rewrite cfg then IndexHtml (indexOutputPath cfg) else NotFound404))"

section \<open>Watch targets in the words of the specification\<close>

text \<open>
  Notions on the text of a path, defined without the search functions of the code. \<open>occurs_at pat s i\<close>: the pattern stands at
  position \<open>i\<close> of \<open>s\<close>. \<open>first_occurrence\<close>: and at no smaller position.
  \<open>contains\<close>: it stands somewhere. \<open>first_slash_from s k j\<close>: \<open>j\<close> is the position of
  the first \<open>/\<close> of \<open>s\<close> at or after position \<open>k\<close>. All quantifiers are bounded by the
  length of the path, so the predicates can be evaluated.
\<close>

definition occurs_at :: "string \<Rightarrow> string \<Rightarrow> nat \<Rightarrow> bool" where
  "occurs_at pat s i = (take (length pat) (drop i s) = pat)"

definition first_occurrence :: "string \<Rightarrow> string \<Rightarrow> nat \<Rightarrow> bool" where
  "first_occurrence pat s i = (occurs_at pat s i \<and> list_all (\<lambda>j. \<not> occurs_at pat s j) [0..<i])"

definition contains :: "string \<Rightarrow> string \<Rightarrow> bool" where
  "contains pat s = list_ex (occurs_at pat s) [0..<Suc (length s)]"

definition first_slash_from :: "string \<Rightarrow> nat \<Rightarrow> nat \<Rightarrow> bool" where
  "first_slash_from s k j =
     (k \<le> j \<and> j < length s \<and> s ! j = CHR ''/'' \<and> list_all (\<lambda>j'. s ! j' \<noteq> CHR ''/'') [k..<j])"

definition has_slash_from :: "string \<Rightarrow> nat \<Rightarrow> bool" where
  "has_slash_from s k = list_ex (\<lambda>j. s ! j = CHR ''/'') [k..<length s]"


text \<open>
  The watch sets in the words of the specification. An input key is a resolved input path,
  optionally prefixed with a resolution-scheme tag separated by a colon: the path is what
  follows the first colon. A dependency path is a path that contains the marker
  \<open>node_modules\<close>; it is reduced to the prefix that ends with the first path segment
  after the marker, which is the whole path when no \<open>/\<close> follows that segment (the
  marker has 12 characters and one separator follows it, so the segment starts at offset
  13 from the marker). The leaf targets of a list of keys are the paths that are not
  dependency paths, the package targets are the reduced dependency paths.
  \<open>inside_package\<close> holds for the dependency paths that lie below the directory they are
  reduced to.
\<close>

definition spec_input_path :: "string \<Rightarrow> string" where
  "spec_input_path key =
     (if CHR '':'' \<in> set key then tl (dropWhile (\<lambda>c. c \<noteq> CHR '':'') key) else key)"

definition spec_package_dir :: "string \<Rightarrow> string" where
  "spec_package_dir p =
     (case List.find (occurs_at ''node_modules'' p) [0..<Suc (length p)] of
        None \<Rightarrow> p
      | Some i \<Rightarrow>
          (case List.find (\<lambda>j. p ! j = CHR ''/'') [i + 13..<length p] of
             None \<Rightarrow> p
           | Some j \<Rightarrow> take j p))"

definition inside_package :: "string \<Rightarrow> bool" where
  "inside_package p =
     (case List.find (occurs_at ''node_modules'' p) [0..<Suc (length p)] of
        None \<Rightarrow> False
      | Some i \<Rightarrow> has_slash_from p (i + 13))"

definition spec_leaf_targets :: "string list \<Rightarrow> string set" where
  "spec_leaf_targets keys =
     set (filter (\<lambda>p. \<not> contains ''node_modules'' p) (map spec_input_path keys))"

definition spec_package_targets :: "string list \<Rightarrow> string set" where
  "spec_package_targets keys =
     set (map spec_package_dir (filter (contains ''node_modules'') (map spec_input_path keys)))"

definition colons :: "string \<Rightarrow> nat" where
  "colons key = length (filter (\<lambda>c. c = CHR '':'') key)"

section \<open>Auxiliary notions for the proofs\<close>

text \<open>
  What the loop of \<open>triggerBuild\<close> collects from a list of keys when the two watched sets
  are empty, as sets: \<open>scanned_inputs\<close> and \<open>scanned_modules\<close>. The invariant of the controller: the two sets
  \<open>watchedInputs\<close> and \<open>watchedModules\<close> are empty (no code ever adds to them), a closed
  watcher holds no path, and the input watcher is closed while \<open>running\<close> is set (the
  module watcher is closed one step later). A call of a watch handler is an \<open>InputCall\<close>
  or a \<open>ModuleCall\<close>, with the outcome of the hook.
\<close>

definition scanned_inputs :: "string list \<Rightarrow> string set" where
  "scanned_inputs keys = {p \<in> input_of_key ` set keys. \<not> contains ''node_modules'' p}"

definition scanned_modules :: "string list \<Rightarrow> string set" where
  "scanned_modules keys =
     {take j p |p i j. p \<in> input_of_key ` set keys \<and> first_occurrence ''node_modules'' p i
        \<and> first_slash_from p (i + 13) j}"

definition ctl_inv :: "controller \<Rightarrow> bool" where
  "ctl_inv s = (watchedInputs s = {} \<and> watchedModules s = {}
     \<and> (is_closed (inputWatcher s) \<longrightarrow> watched (inputWatcher s) = {})
     \<and> (is_closed (moduleWatcher s) \<longrightarrow> watched (moduleWatcher s) = {})
     \<and> (running s \<longrightarrow> is_closed (inputWatcher s)))"

datatype watch_call = InputCall bool | ModuleCall bool

fun handle_call :: "watch_call \<Rightarrow> controller \<Rightarrow> controller" where
  "handle_call (InputCall hook_ok) s = onInputEvent hook_ok s"
| "handle_call (ModuleCall hook_ok) s = onModuleEvent hook_ok s"

section \<open>Concrete inputs\<close>

text \<open>
  A style sheet \<open>/src/a.scss\<close> that imports \<open>/src/_b.scss\<close>, requested as
  \<open>./a.scss\<close> from \<open>/src\<close>; a cache that holds it with freshness mark 5; a file
  system on which the two files were modified at 10 and 7.
\<close>

definition ex_result :: onLoadResult where
  "ex_result = \<lparr>contents = ''a{}'', loader = CssLoader, resolveDir = ''/src'',
     watchFiles = [''/src/a.scss'', ''/src/_b.scss'']\<rparr>"

definition ex_result2 :: onLoadResult where
  "ex_result2 = \<lparr>contents = ''a{color:red}'', loader = CssLoader, resolveDir = ''/src'',
     watchFiles = [''/src/a.scss'', ''/src/_b.scss'']\<rparr>"

definition ex_args :: onResolveArgs where
  "ex_args = \<lparr>arg_path = ''./a.scss'', arg_resolveDir = ''/src'', arg_importer = ''/src/index.ts''\<rparr>"

definition ex_stat :: "string \<rightharpoonup> real" where
  "ex_stat = [''/src/a.scss'' \<mapsto> 10, ''/src/_b.scss'' \<mapsto> 7]"

definition ex_resolve :: "onResolveArgs \<Rightarrow> error + string" where
  "ex_resolve args = Inr ''/src/a.scss''"

definition ex_typeOf :: "onResolveArgs \<Rightarrow> string" where
  "ex_typeOf args = ''css''"

definition ex_transform :: transform_fn where
  "ex_transform f t = Inr ex_result2"

definition ex_failing :: transform_fn where
  "ex_failing f t = Inl (TransformError ''boom'')"

definition ex_entry :: cachedResult where
  "ex_entry = \<lparr>ctype = ''css'', mtimeMs = 5, result = ex_result\<rparr>"

definition ex_cache :: cache where
  "ex_cache = [''/src'' \<mapsto> [''./a.scss'' \<mapsto> ex_entry]]"

text \<open>
  A first build of a project with two source files and one dependency, a second build in
  which the style sheet is gone and the dependency is another one, and the state of the
  controller after the first build, once the timer of \<open>startWatchers\<close> has run.
\<close>

definition ex_build :: buildResult where
  "ex_build = \<lparr>errors = [], warnings = [],
     metafile = Some \<lparr>inputs = [''src/index.ts'', ''src/style.css'', ''node_modules/lib/index.js''],
                      outputs = [''dist/index.js'']\<rparr>,
     outputFiles = Some [''dist/index.js''], r_rebuild = Some (Incremental 1)\<rparr>"

definition ex_idle :: controller where
  "ex_idle = timer_fire (snd (triggerBuild_finish (Some ex_build) True (triggerBuild_begin init_controller)))"

definition ex_build2 :: buildResult where
  "ex_build2 = \<lparr>errors = [], warnings = [],
     metafile = Some \<lparr>inputs = [''src/index.ts'', ''node_modules/other/a.js''],
                      outputs = [''dist/index.js'']\<rparr>,
     outputFiles = Some [''dist/index.js''], r_rebuild = Some (Incremental 2)\<rparr>"

text \<open>
  A result of the bundler without metafile, as when the \<open>metafile\<close> option is not set.
\<close>

definition ex_no_metafile :: buildResult where
  "ex_no_metafile = \<lparr>errors = [], warnings = [], metafile = None,
     outputFiles = Some [''dist/index.js''], r_rebuild = Some (Incremental 1)\<rparr>"

text \<open>
  A server with a secondary static root: \<open>/index.js\<close> exists in both directories,
  \<open>/logo.png\<close> only in the secondary root; rewrite mode is on; the request target
  \<open>//\<close> does not parse.
\<close>

definition ex_cfg :: serveConfig where
  "ex_cfg = \<lparr>parseUrl = (\<lambda>u. if u = ''//'' then None else Some u),
     outputHandler = (\<lambda>u. if u = ''/index.js'' then Some (File ''dist'' u) else None),
     servedirHandler = Some (\<lambda>u. if u = ''/index.js'' \<or> u = ''/logo.png'' then Some (File ''public'' u) else None),
     rewrite = True, publicPath = [], stripPublicPath = (\<lambda>u. Some u),
     indexOutputPath = ''index.html'', lrHandler = None\<rparr>"

text \<open>
  The controller after two overlapping calls of \<open>triggerBuild\<close> from the idle state: the
  second call starts while the first is in flight, the first settles with the first
  build's result again, the second with the second build's.
\<close>

definition ex_overlap :: controller where
  "ex_overlap = snd (triggerBuild_finish (Some ex_build2) True
     (snd (triggerBuild_finish (Some ex_build) True
        (triggerBuild_begin (triggerBuild_begin ex_idle)))))"

text \<open>
  A build of a project that imports a file lying directly in the dependency directory, and
  a build with an input key that has a colon in its path, behind the scheme tag.
\<close>

definition ex_build4 :: buildResult where
  "ex_build4 = \<lparr>errors = [], warnings = [],
     metafile = Some \<lparr>inputs = [''http-url:https://cdn.example.com/x.js''],
                      outputs = [''dist/index.js'']\<rparr>,
     outputFiles = Some [''dist/index.js''], r_rebuild = Some (Incremental 4)\<rparr>"

definition ex_build3 :: buildResult where
  "ex_build3 = \<lparr>errors = [], warnings = [],
     metafile = Some \<lparr>inputs = [''src/index.ts'', ''node_modules/left-pad.js''],
                      outputs = [''dist/index.js'']\<rparr>,
     outputFiles = Some [''dist/index.js''], r_rebuild = Some (Incremental 3)\<rparr>"

section \<open>Properties of the transformation cache\<close>

lemma foldl_max_ge_init: "(a::real) \<le> foldl max a xs"
proof (induction xs arbitrary: a)
  case Nil
  show ?case by simp
next
  case (Cons x xs)
  have "a \<le> max a x" by simp
  also have "\<dots> \<le> foldl max (max a x) xs" by (rule Cons.IH)
  finally show ?case by simp
qed

lemma foldl_max_ge_elem: "x \<in> set xs \<Longrightarrow> (x::real) \<le> foldl max a xs"
proof (induction xs arbitrary: a)
  case Nil
  then show ?case by simp
next
  case (Cons y ys)
  show ?case
  proof (cases "x = y")
    case True
    have "x \<le> max a y" using True by simp
    also have "\<dots> \<le> foldl max (max a y) ys" by (rule foldl_max_ge_init)
    finally show ?thesis by simp
  next
    case False
    with Cons.prems have "x \<in> set ys" by simp
    then show ?thesis using Cons.IH by simp
  qed
qed

lemma maxMtimeMs_ge: "m \<in> set stats \<Longrightarrow> m \<le> maxMtimeMs stats"
  unfolding maxMtimeMs_def by (rule foldl_max_ge_elem)

lemma collectStats_cong:
  "\<forall>f \<in> set fs. stat2 f = stat f \<Longrightarrow> collectStats stat2 fs = collectStats stat fs"
  by (induction fs) (auto split: option.splits)

lemma refresh_fresh:
  "\<forall>m \<in> set ms. m \<le> mtimeMs c \<Longrightarrow> refresh transform c all ms = (Inr c, [])"
  by (induction ms) auto

lemma refresh_failed:
  "refresh transform c all ms = (x, [(f, t)]) \<Longrightarrow> transform f t = Inl e \<Longrightarrow> x = Inl e"
  by (induction ms) (auto split: if_splits list.splits sum.splits)

text \<open>What a successful miss leaves behind: the entry that \<open>group.set\<close> stores.\<close>

lemma cached_miss_put:
  assumes "lookup cache (arg_resolveDir args) (arg_path args) = None"
    and "cached resolve typeOf transform stat cache args = (Inr r, cache', calls)"
  shows "\<exists>stats. collectStats stat (watchFiles r) = Inr stats
      \<and> cache' = cache(arg_resolveDir args \<mapsto>
           (case cache (arg_resolveDir args) of None \<Rightarrow> Map.empty | Some g \<Rightarrow> g)
             (arg_path args \<mapsto> \<lparr>ctype = typeOf args, mtimeMs = maxMtimeMs stats, result = r\<rparr>))"
  using assms
  by (auto simp: cached_def lookup_def Let_def split: option.splits sum.splits)

text \<open>A hit whose watch files are all at most as new as the mark touches nothing.\<close>

lemma cached_hit_fresh:
  assumes "lookup cache (arg_resolveDir args) (arg_path args) = Some c"
    and "collectStats stat (watchFiles (result c)) = Inr stats"
    and "\<forall>m \<in> set stats. m \<le> mtimeMs c"
  shows "cached resolve typeOf transform stat cache args = (Inr (result c), cache, [])"
proof -
  from assms(1) obtain g where g: "cache (arg_resolveDir args) = Some g" "g (arg_path args) = Some c"
    by (auto simp: lookup_def split: option.splits)
  have "g(arg_path args \<mapsto> c) = g" using g(2) by (rule map_upd_triv)
  moreover have "cache(arg_resolveDir args \<mapsto> g) = cache" using g(1) by (rule map_upd_triv)
  ultimately show ?thesis
    using g assms(2) refresh_fresh[OF assms(3)]
    by (simp add: cached_def Let_def)
qed

text \<open>
  C8 (cache idempotence). A lookup that misses stores its result (the put). A second
  lookup of the same key, on a file system where the watch files of the stored result have
  the modification times they had at the put, returns the same result, leaves the cache as
  it is and does not call the transform: the second lookup is stated for an arbitrary
  resolver, type function and transform, and its list of transform calls is empty.
\<close>

theorem cache_idempotence:
  assumes miss: "lookup cache (arg_resolveDir args) (arg_path args) = None"
    and put: "cached resolve typeOf transform stat cache args = (Inr r, cache', calls)"
    and unchanged: "\<forall>f \<in> set (watchFiles r). stat2 f = stat f"
  shows "cached resolve2 typeOf2 transform2 stat2 cache' args = (Inr r, cache', [])"
proof -
  from cached_miss_put[OF miss put] obtain stats where
    st: "collectStats stat (watchFiles r) = Inr stats"
    and c': "cache' = cache(arg_resolveDir args \<mapsto>
           (case cache (arg_resolveDir args) of None \<Rightarrow> Map.empty | Some g \<Rightarrow> g)
             (arg_path args \<mapsto> \<lparr>ctype = typeOf args, mtimeMs = maxMtimeMs stats, result = r\<rparr>))"
    by blast
  let ?c = "\<lparr>ctype = typeOf args, mtimeMs = maxMtimeMs stats, result = r\<rparr>"
  have l: "lookup cache' (arg_resolveDir args) (arg_path args) = Some ?c"
    by (simp add: c' lookup_def)
  have s2: "collectStats stat2 (watchFiles (result ?c)) = Inr stats"
    using collectStats_cong[OF unchanged] st by simp
  have fresh: "\<forall>m \<in> set stats. m \<le> mtimeMs ?c"
    by (simp add: maxMtimeMs_ge)
  show ?thesis using cached_hit_fresh[OF l s2 fresh] by simp
qed

theorem cache_idempotence_witness:
  "lookup Map.empty (arg_resolveDir ex_args) (arg_path ex_args) = None
   \<and> cached ex_resolve ex_typeOf ex_transform ex_stat Map.empty ex_args
       = (Inr ex_result2,
          [''/src'' \<mapsto> [''./a.scss'' \<mapsto> \<lparr>ctype = ''css'', mtimeMs = 10, result = ex_result2\<rparr>]],
          [(''/src/a.scss'', ''css'')])
   \<and> cached ex_resolve ex_typeOf ex_failing ex_stat
         [''/src'' \<mapsto> [''./a.scss'' \<mapsto> \<lparr>ctype = ''css'', mtimeMs = 10, result = ex_result2\<rparr>]] ex_args
       = (Inr ex_result2,
          [''/src'' \<mapsto> [''./a.scss'' \<mapsto> \<lparr>ctype = ''css'', mtimeMs = 10, result = ex_result2\<rparr>]],
          [])"
proof -
  have miss: "lookup Map.empty (arg_resolveDir ex_args) (arg_path ex_args) = None"
    by (simp add: lookup_def)
  have put: "cached ex_resolve ex_typeOf ex_transform ex_stat Map.empty ex_args
       = (Inr ex_result2,
          [''/src'' \<mapsto> [''./a.scss'' \<mapsto> \<lparr>ctype = ''css'', mtimeMs = 10, result = ex_result2\<rparr>]],
          [(''/src/a.scss'', ''css'')])"
    by (simp add: cached_def Let_def ex_args_def ex_resolve_def ex_typeOf_def ex_transform_def
        ex_result2_def ex_stat_def maxMtimeMs_def)
  have unchanged: "\<forall>f \<in> set (watchFiles ex_result2). ex_stat f = ex_stat f"
    by simp
  show ?thesis
    using miss put
      cache_idempotence[where stat = ex_stat and ?stat2.0 = ex_stat and ?transform2.0 = ex_failing
        and ?resolve2.0 = ex_resolve and ?typeOf2.0 = ex_typeOf, OF miss put unchanged]
    by simp
qed

text \<open>
  C3 (cache invalidation). An entry with watch files \<open>[A, B]\<close> and mark \<open>T\<close>; the file
  system reports for \<open>A\<close> a modification time above \<open>T\<close>; the transform succeeds on
  \<open>A\<close>. Then the lookup calls the transform exactly once, on \<open>A\<close> with the entry's type,
  returns what the transform returned, and the entry afterwards holds that result with a
  mark that is at least the larger of the two modification times.
\<close>

theorem cache_invalidation:
  assumes entry: "lookup cache (arg_resolveDir args) (arg_path args) = Some c"
    and deps: "watchFiles (result c) = [A, B]"
    and statA: "stat A = Some a" and statB: "stat B = Some b"
    and touched: "a > mtimeMs c"
    and ok: "transform A (ctype c) = Inr r"
  shows "\<exists>cache' c'. cached resolve typeOf transform stat cache args = (Inr r, cache', [(A, ctype c)])
     \<and> lookup cache' (arg_resolveDir args) (arg_path args) = Some c'
     \<and> result c' = r \<and> max a b \<le> mtimeMs c'"
proof -
  from entry obtain g where g: "cache (arg_resolveDir args) = Some g" "g (arg_path args) = Some c"
    by (auto simp: lookup_def split: option.splits)
  have st: "collectStats stat (watchFiles (result c)) = Inr [a, b]"
    using deps statA statB by simp
  have rf: "refresh transform c [a, b] [a, b]
      = (Inr (c\<lparr>result := r, mtimeMs := maxMtimeMs [a, b]\<rparr>), [(A, ctype c)])"
    using touched deps ok by simp
  have mx: "max a b \<le> maxMtimeMs [a, b]"
    using maxMtimeMs_ge[of a "[a, b]"] maxMtimeMs_ge[of b "[a, b]"] by simp
  show ?thesis
    using g st rf mx by (simp add: cached_def Let_def lookup_def)
qed

theorem cache_invalidation_witness:
  "lookup ex_cache (arg_resolveDir ex_args) (arg_path ex_args) = Some ex_entry
   \<and> mtimeMs ex_entry < 10
   \<and> cached ex_resolve ex_typeOf ex_transform ex_stat ex_cache ex_args
     = (Inr ex_result2,
        [''/src'' \<mapsto> [''./a.scss'' \<mapsto> \<lparr>ctype = ''css'', mtimeMs = 10, result = ex_result2\<rparr>]],
        [(''/src/a.scss'', ''css'')])"
proof -
  have entry: "lookup ex_cache (arg_resolveDir ex_args) (arg_path ex_args) = Some ex_entry"
    by (simp add: lookup_def ex_cache_def ex_args_def)
  have deps: "watchFiles (result ex_entry) = [''/src/a.scss'', ''/src/_b.scss'']"
    by (simp add: ex_entry_def ex_result_def)
  have statA: "ex_stat ''/src/a.scss'' = Some 10" by (simp add: ex_stat_def)
  have statB: "ex_stat ''/src/_b.scss'' = Some 7" by (simp add: ex_stat_def)
  have touched: "10 > mtimeMs ex_entry" by (simp add: ex_entry_def)
  have ok: "ex_transform ''/src/a.scss'' (ctype ex_entry) = Inr ex_result2"
    by (simp add: ex_transform_def)
  from cache_invalidation[where stat = ex_stat and transform = ex_transform
      and resolve = ex_resolve and typeOf = ex_typeOf, OF entry deps statA statB touched ok]
  have "\<exists>cache'. cached ex_resolve ex_typeOf ex_transform ex_stat ex_cache ex_args
       = (Inr ex_result2, cache', [(''/src/a.scss'', ctype ex_entry)])"
    by blast
  then show ?thesis
    using entry touched
    by (simp add: cached_def Let_def ex_cache_def ex_args_def ex_entry_def ex_result_def
        ex_stat_def ex_transform_def maxMtimeMs_def)
qed

text \<open>
  C9 (transform failure). A lookup that called the transform, on a call that throws \<open>e\<close>:
  the lookup settles with \<open>e\<close>, and every entry of the cache reads as before, for the key
  looked up and for all others. This covers the miss (no entry is inserted; only the empty
  group of the scope may have been created) and the recomputation of a stale entry (the
  entry keeps its result, watch files and mark).
\<close>

theorem transform_failure_atomicity:
  assumes run: "cached resolve typeOf transform stat cache args = (res, cache', [(f, t)])"
    and throws: "transform f t = Inl e"
  shows "res = Inl e \<and> (\<forall>scope p. lookup cache' scope p = lookup cache scope p)"
proof (cases "lookup cache (arg_resolveDir args) (arg_path args)")
  case None
  show ?thesis
  proof (cases "cache (arg_resolveDir args)")
    case N: None
    with run have "resolve args = Inr f \<and> t = typeOf args"
      by (auto simp: cached_def Let_def split: sum.splits)
    with N run throws show ?thesis
      by (auto simp: cached_def Let_def lookup_def)
  next
    case (Some g)
    with None have g: "g (arg_path args) = None" by (simp add: lookup_def)
    with Some run have "resolve args = Inr f \<and> t = typeOf args"
      by (auto simp: cached_def Let_def split: sum.splits)
    with Some g run throws show ?thesis
      by (auto simp: cached_def Let_def)
  qed
next
  case (Some c)
  then obtain g where g: "cache (arg_resolveDir args) = Some g" "g (arg_path args) = Some c"
    by (auto simp: lookup_def split: option.splits)
  show ?thesis
  proof (cases "collectStats stat (watchFiles (result c))")
    case (Inl e')
    with g run show ?thesis by (simp add: cached_def Let_def)
  next
    case stats: (Inr stats)
    obtain x calls where rf: "refresh transform c stats stats = (x, calls)"
      by (cases "refresh transform c stats stats") auto
    show ?thesis
    proof (cases x)
      case (Inl e')
      with g stats rf run have "calls = [(f, t)]" "res = Inl e'" "cache' = cache"
        by (auto simp: cached_def Let_def)
      with refresh_failed[of transform c stats stats x f t e] rf throws Inl show ?thesis by simp
    next
      case (Inr c')
      with g stats rf run have "calls = [(f, t)]"
        by (auto simp: cached_def Let_def)
      with refresh_failed[of transform c stats stats x f t e] rf throws Inr show ?thesis by simp
    qed
  qed
qed

theorem transform_failure_atomicity_witness:
  "fst (cached ex_resolve ex_typeOf ex_failing ex_stat ex_cache ex_args) = Inl (TransformError ''boom'')
   \<and> lookup (fst (snd (cached ex_resolve ex_typeOf ex_failing ex_stat ex_cache ex_args))) ''/src'' ''./a.scss''
       = Some ex_entry
   \<and> fst (cached ex_resolve ex_typeOf ex_failing ex_stat Map.empty ex_args) = Inl (TransformError ''boom'')
   \<and> lookup (fst (snd (cached ex_resolve ex_typeOf ex_failing ex_stat Map.empty ex_args))) ''/src'' ''./a.scss''
       = None"
proof -
  have stale: "cached ex_resolve ex_typeOf ex_failing ex_stat ex_cache ex_args
      = (Inl (TransformError ''boom''), ex_cache, [(''/src/a.scss'', ''css'')])"
    by (simp add: cached_def Let_def ex_cache_def ex_args_def ex_entry_def ex_result_def
        ex_stat_def ex_failing_def)
  have miss: "cached ex_resolve ex_typeOf ex_failing ex_stat Map.empty ex_args
      = (Inl (TransformError ''boom''), [''/src'' \<mapsto> Map.empty], [(''/src/a.scss'', ''css'')])"
    by (simp add: cached_def Let_def ex_args_def ex_resolve_def ex_typeOf_def ex_failing_def)
  have thr: "ex_failing ''/src/a.scss'' ''css'' = Inl (TransformError ''boom'')"
    by (simp add: ex_failing_def)
  have l: "lookup ex_cache ''/src'' ''./a.scss'' = Some ex_entry"
    by (simp add: lookup_def ex_cache_def)
  have l0: "lookup Map.empty ''/src'' ''./a.scss'' = None"
    by (simp add: lookup_def)
  show ?thesis
    using transform_failure_atomicity[OF stale thr] transform_failure_atomicity[OF miss thr] l l0
    by (simp add: stale miss)
qed

section \<open>Properties of the string operations\<close>

lemma occurs_at_length:
  assumes "pat \<noteq> []" "occurs_at pat s i"
  shows "i + length pat \<le> length s"
proof -
  have "length (take (length pat) (drop i s)) = length pat"
    using assms(2) by (simp add: occurs_at_def)
  then have "min (length pat) (length s - i) = length pat" by simp
  moreover have "0 < length pat" using assms(1) by simp
  ultimately show ?thesis by arith
qed

lemma occurs_at_Cons: "occurs_at pat (c # cs) (Suc j) = occurs_at pat cs j"
  by (simp add: occurs_at_def)

lemma index_in_first:
  "pat \<noteq> [] \<Longrightarrow> occurs_at pat s d \<Longrightarrow> \<forall>j<d. \<not> occurs_at pat s j \<Longrightarrow> index_in pat s = Some d"
proof (induction s arbitrary: d)
  case Nil
  then show ?case by (simp add: occurs_at_def)
next
  case (Cons c cs)
  show ?case
  proof (cases d)
    case 0
    with Cons.prems show ?thesis by (simp add: occurs_at_def)
  next
    case (Suc d')
    with Cons.prems have "\<not> occurs_at pat (c # cs) 0" by simp
    then have no0: "take (length pat) (c # cs) \<noteq> pat" by (simp add: occurs_at_def)
    have "occurs_at pat cs d'" using Cons.prems(2) Suc by (simp add: occurs_at_Cons)
    moreover have "\<forall>j<d'. \<not> occurs_at pat cs j"
      using Cons.prems(3) Suc occurs_at_Cons by (metis Suc_less_eq)
    ultimately have "index_in pat cs = Some d'" using Cons.IH Cons.prems(1) by blast
    with no0 Suc show ?thesis by simp
  qed
qed

lemma index_in_none:
  "pat \<noteq> [] \<Longrightarrow> \<forall>j. \<not> occurs_at pat s j \<Longrightarrow> index_in pat s = None"
proof (induction s)
  case Nil
  then show ?case by simp
next
  case (Cons c cs)
  from Cons.prems(2) have "\<not> occurs_at pat (c # cs) 0" by blast
  then have no0: "take (length pat) (c # cs) \<noteq> pat" by (simp add: occurs_at_def)
  have "\<forall>j. \<not> occurs_at pat cs j" using Cons.prems(2) occurs_at_Cons by blast
  then have "index_in pat cs = None" using Cons.IH Cons.prems(1) by blast
  with no0 show ?case by simp
qed

lemma occurs_at_drop: "occurs_at pat (drop k s) d = occurs_at pat s (k + d)"
  by (simp add: occurs_at_def add.commute)

lemma indexOf_found:
  assumes "pat \<noteq> []" "k \<le> i" "occurs_at pat s i" "\<forall>j. k \<le> j \<and> j < i \<longrightarrow> \<not> occurs_at pat s j"
  shows "indexOf s pat k = int i"
proof -
  have "i < length s" using occurs_at_length[OF assms(1,3)] assms(1) by (cases pat) auto
  with assms(2) have k: "min k (length s) = k" by simp
  have "occurs_at pat (drop k s) (i - k)" using assms(2,3) by (simp add: occurs_at_drop)
  moreover have "\<forall>j<i - k. \<not> occurs_at pat (drop k s) j"
    using assms(4) by (auto simp: occurs_at_drop)
  ultimately have "index_in pat (drop k s) = Some (i - k)"
    using index_in_first[OF assms(1)] by blast
  with k assms(2) show ?thesis by (simp add: indexOf_def)
qed

lemma indexOf_none:
  assumes "pat \<noteq> []" "\<forall>j\<ge>k. \<not> occurs_at pat s j"
  shows "indexOf s pat k = - 1"
proof -
  have "\<forall>j. \<not> occurs_at pat (drop (min k (length s)) s) j"
  proof (cases "k \<le> length s")
    case True
    then show ?thesis using assms(2) by (simp add: occurs_at_drop min_def)
  next
    case False
    then show ?thesis using assms(1) by (simp add: occurs_at_def min_def)
  qed
  then have "index_in pat (drop (min k (length s)) s) = None"
    using index_in_none[OF assms(1)] by blast
  then show ?thesis by (simp add: indexOf_def Let_def)
qed

lemma occurs_at_slash: "occurs_at ''/'' s j = (j < length s \<and> s ! j = CHR ''/'')"
proof (cases "j < length s")
  case True
  then have "drop j s = s ! j # drop (Suc j) s" by (simp add: Cons_nth_drop_Suc)
  then show ?thesis using True by (simp add: occurs_at_def)
next
  case False
  then show ?thesis by (simp add: occurs_at_def)
qed

lemma split_on_nonempty: "split_on c s \<noteq> []"
  by (induction s) (auto split: list.splits)

lemma split_on_length: "c \<in> set s \<Longrightarrow> 2 \<le> length (split_on c s)"
proof (induction s)
  case Nil
  then show ?case by simp
next
  case (Cons x xs)
  show ?case
  proof (cases "x = c")
    case True
    then show ?thesis using split_on_nonempty[of c xs] by (cases "split_on c xs") auto
  next
    case False
    with Cons have "2 \<le> length (split_on c xs)" by simp
    with False show ?thesis by (cases "split_on c xs") auto
  qed
qed

lemma split_on_plain: "c \<notin> set s \<Longrightarrow> split_on c s = [s]"
  by (induction s) auto

lemma split_on_first: "c \<notin> set a \<Longrightarrow> split_on c (a @ c # rest) = a # split_on c rest"
  by (induction a) auto

lemma input_of_key_plain: "CHR '':'' \<notin> set k \<Longrightarrow> input_of_key k = k"
  by (simp add: input_of_key_def)

lemma input_of_key_scheme:
  "CHR '':'' \<notin> set a \<Longrightarrow> CHR '':'' \<notin> set b \<Longrightarrow> input_of_key (a @ CHR '':'' # b) = b"
  by (simp add: input_of_key_def split_on_first split_on_plain)

lemma input_of_key_second_segment:
  "CHR '':'' \<notin> set a \<Longrightarrow> CHR '':'' \<notin> set b
   \<Longrightarrow> input_of_key (a @ CHR '':'' # b @ CHR '':'' # rest) = b"
  by (simp add: input_of_key_def split_on_first)

lemma contains_iff: "pat \<noteq> [] \<Longrightarrow> contains pat s = (\<exists>i. occurs_at pat s i)"
proof -
  assume ne: "pat \<noteq> []"
  have "occurs_at pat s i \<Longrightarrow> i < Suc (length s)" for i
    using occurs_at_length[OF ne, of s i] by simp
  then show ?thesis by (auto simp: contains_def list_ex_iff simp del: upt_Suc)
qed

lemma first_occurrence_iff:
  "first_occurrence pat s i = (occurs_at pat s i \<and> (\<forall>j<i. \<not> occurs_at pat s j))"
  by (auto simp: first_occurrence_def list_all_iff)

lemma first_slash_from_iff:
  "first_slash_from s k j =
     (k \<le> j \<and> j < length s \<and> s ! j = CHR ''/'' \<and> (\<forall>j'. k \<le> j' \<and> j' < j \<longrightarrow> s ! j' \<noteq> CHR ''/''))"
  by (auto simp: first_slash_from_def list_all_iff)

lemma has_slash_from_iff:
  "has_slash_from s k = (\<exists>j. k \<le> j \<and> j < length s \<and> s ! j = CHR ''/'')"
  by (auto simp: has_slash_from_def list_ex_iff)

lemma first_occurrence_exists:
  assumes "pat \<noteq> []" "contains pat s"
  shows "\<exists>i. first_occurrence pat s i"
proof -
  from assms obtain i where i: "occurs_at pat s i" by (auto simp: contains_iff)
  define l where "l = (LEAST i. occurs_at pat s i)"
  have "occurs_at pat s l" unfolding l_def using i by (rule LeastI)
  moreover have "\<not> occurs_at pat s j" if "j < l" for j
    using that unfolding l_def by (rule not_less_Least)
  ultimately have "first_occurrence pat s l" by (simp add: first_occurrence_iff)
  then show ?thesis ..
qed

lemma first_occurrence_unique:
  assumes "first_occurrence pat s i" "first_occurrence pat s i'"
  shows "i = i'"
proof (rule ccontr)
  assume "i \<noteq> i'"
  then consider "i < i'" | "i' < i" by arith
  then show False using assms by cases (auto simp: first_occurrence_iff)
qed

lemma first_occurrence_contains:
  "pat \<noteq> [] \<Longrightarrow> first_occurrence pat s i \<Longrightarrow> contains pat s"
  by (auto simp: contains_iff first_occurrence_iff)

lemma first_slash_exists:
  assumes "has_slash_from s k"
  shows "\<exists>j. first_slash_from s k j"
proof -
  define P where "P = (\<lambda>j. k \<le> j \<and> j < length s \<and> s ! j = CHR ''/'')"
  from assms obtain j where "P j" by (auto simp: has_slash_from_iff P_def)
  define l where "l = (LEAST j. P j)"
  have Pl: "P l" unfolding l_def using \<open>P j\<close> by (rule LeastI)
  have least: "\<not> P j'" if "j' < l" for j'
    using that unfolding l_def by (rule not_less_Least)
  have "s ! j' \<noteq> CHR ''/''" if "k \<le> j'" "j' < l" for j'
  proof -
    have "j' < length s" using that(2) Pl by (simp add: P_def)
    with least[OF that(2)] that(1) show ?thesis by (simp add: P_def)
  qed
  with Pl have "first_slash_from s k l" by (simp add: first_slash_from_iff P_def)
  then show ?thesis ..
qed

lemma first_slash_unique:
  assumes "first_slash_from s k j" "first_slash_from s k j'"
  shows "j = j'"
proof (rule ccontr)
  assume "j \<noteq> j'"
  then consider "j < j'" | "j' < j" by arith
  then show False using assms by cases (auto simp: first_slash_from_iff)
qed

lemma first_slash_has: "first_slash_from s k j \<Longrightarrow> has_slash_from s k"
  by (auto simp: first_slash_from_iff has_slash_from_iff)

section \<open>Classification of the inputs\<close>

lemma indexOf_marker_none:
  "\<not> contains ''node_modules'' p \<Longrightarrow> indexOf p ''node_modules'' 0 = - 1"
  by (rule indexOf_none) (auto simp: contains_iff)

lemma indexOf_marker_first:
  "first_occurrence ''node_modules'' p i \<Longrightarrow> indexOf p ''node_modules'' 0 = int i"
  by (rule indexOf_found) (auto simp: first_occurrence_iff)

lemma indexOf_slash_first:
  "first_slash_from p k j \<Longrightarrow> indexOf p ''/'' k = int j"
  by (rule indexOf_found) (auto simp: first_slash_from_iff occurs_at_slash)

lemma indexOf_slash_none:
  "\<not> has_slash_from p k \<Longrightarrow> indexOf p ''/'' k = - 1"
  by (rule indexOf_none) (auto simp: has_slash_from_iff occurs_at_slash)

lemma scan_step_leaf:
  "\<not> contains ''node_modules'' (input_of_key k)
   \<Longrightarrow> scan_step {} {} acc k = (insert (input_of_key k) (fst acc), snd acc)"
  by (simp add: scan_step_def Let_def indexOf_marker_none)

lemma scan_step_package:
  assumes "first_occurrence ''node_modules'' (input_of_key k) i"
    and "first_slash_from (input_of_key k) (i + 13) j"
  shows "scan_step {} {} acc k = (fst acc, insert (take j (input_of_key k)) (snd acc))"
proof -
  have "0 < j" using assms(2) by (simp add: first_slash_from_iff)
  moreover have "nat (int i) + length ''node_modules'' + 1 = i + 13" by simp
  ultimately show ?thesis
    unfolding scan_step_def Let_def
    by (simp only: indexOf_marker_first[OF assms(1)] indexOf_slash_first[OF assms(2)]) simp
qed

lemma scan_step_skip:
  assumes "first_occurrence ''node_modules'' (input_of_key k) i"
    and "\<not> has_slash_from (input_of_key k) (i + 13)"
  shows "scan_step {} {} acc k = acc"
proof -
  have "nat (int i) + length ''node_modules'' + 1 = i + 13" by simp
  then show ?thesis
    unfolding scan_step_def Let_def
    by (simp only: indexOf_marker_first[OF assms(1)] indexOf_slash_none[OF assms(2)]) simp
qed

lemma scanned_inputs_Cons: "scanned_inputs (k # ks) = scanned_inputs [k] \<union> scanned_inputs ks"
  by (auto simp: scanned_inputs_def)

lemma scanned_modules_Cons: "scanned_modules (k # ks) = scanned_modules [k] \<union> scanned_modules ks"
  by (auto simp: scanned_modules_def)

lemma scanned_inputs_single:
  "scanned_inputs [k] = (if contains ''node_modules'' (input_of_key k) then {} else {input_of_key k})"
  by (simp add: scanned_inputs_def) blast

lemma scanned_modules_single:
  "(d \<in> scanned_modules [k]) =
     (\<exists>i j. first_occurrence ''node_modules'' (input_of_key k) i
        \<and> first_slash_from (input_of_key k) (i + 13) j \<and> d = take j (input_of_key k))"
  by (simp add: scanned_modules_def) blast

lemma scan_step_targets:
  "scan_step {} {} (A, M) k = (A \<union> scanned_inputs [k], M \<union> scanned_modules [k])"
proof (cases "contains ''node_modules'' (input_of_key k)")
  case False
  have "scanned_modules [k] = {}"
  proof (rule ccontr)
    assume "scanned_modules [k] \<noteq> {}"
    then obtain d where "d \<in> scanned_modules [k]" by blast
    then obtain i where "first_occurrence ''node_modules'' (input_of_key k) i"
      unfolding scanned_modules_single by blast
    then have "contains ''node_modules'' (input_of_key k)"
      by (rule first_occurrence_contains[rotated]) simp
    with False show False by simp
  qed
  then show ?thesis
    using scan_step_leaf[OF False, of "(A, M)"] False by (simp add: scanned_inputs_single)
next
  case True
  then obtain i where i: "first_occurrence ''node_modules'' (input_of_key k) i"
    using first_occurrence_exists[of "''node_modules''" "input_of_key k"] by auto
  have leaf: "scanned_inputs [k] = {}" using True by (simp add: scanned_inputs_single)
  show ?thesis
  proof (cases "has_slash_from (input_of_key k) (i + 13)")
    case False
    have "scanned_modules [k] = {}"
    proof (rule ccontr)
      assume "scanned_modules [k] \<noteq> {}"
      then obtain d where "d \<in> scanned_modules [k]" by blast
      then obtain i' j' where i': "first_occurrence ''node_modules'' (input_of_key k) i'"
        and j': "first_slash_from (input_of_key k) (i' + 13) j'"
        unfolding scanned_modules_single by blast
      from first_occurrence_unique[OF i i'] j' have "first_slash_from (input_of_key k) (i + 13) j'"
        by simp
      then have "has_slash_from (input_of_key k) (i + 13)" by (rule first_slash_has)
      with False show False by simp
    qed
    with leaf show ?thesis using scan_step_skip[OF i False, of "(A, M)"] by simp
  next
    case True
    then obtain j where j: "first_slash_from (input_of_key k) (i + 13) j"
      using first_slash_exists by blast
    have "scanned_modules [k] = {take j (input_of_key k)}"
    proof
      show "scanned_modules [k] \<subseteq> {take j (input_of_key k)}"
      proof
        fix d assume "d \<in> scanned_modules [k]"
        then obtain i' j' where d: "d = take j' (input_of_key k)"
          and i': "first_occurrence ''node_modules'' (input_of_key k) i'"
          and j': "first_slash_from (input_of_key k) (i' + 13) j'"
          unfolding scanned_modules_single by blast
        from first_occurrence_unique[OF i i'] have "i' = i" by simp
        with j' first_slash_unique[OF j] have "j' = j" by simp
        with d show "d \<in> {take j (input_of_key k)}" by simp
      qed
      show "{take j (input_of_key k)} \<subseteq> scanned_modules [k]"
        using i j unfolding scanned_modules_single subset_iff by blast
    qed
    with leaf show ?thesis using scan_step_package[OF i j, of "(A, M)"] by simp
  qed
qed

lemma foldl_scan_step:
  "foldl (scan_step {} {}) (A, M) keys = (A \<union> scanned_inputs keys, M \<union> scanned_modules keys)"
proof (induction keys arbitrary: A M)
  case Nil
  show ?case by (simp add: scanned_inputs_def scanned_modules_def)
next
  case (Cons k ks)
  show ?case
    by (simp add: scan_step_targets Cons.IH scanned_inputs_Cons[of k ks]
        scanned_modules_Cons[of k ks] Un_assoc)
qed

lemma scan_inputs_targets:
  "scan_inputs {} {} keys = (scanned_inputs keys, scanned_modules keys)"
  by (simp add: scan_inputs_def foldl_scan_step)




section \<open>The loop and the watch sets of the specification\<close>

text \<open>
  \<open>List.find\<close> over an interval finds the least position with the property; so the
  functions of the specification's side agree with the predicates on the text of a path.
\<close>

lemma find_upt_Some:
  "(List.find P [a..<b] = Some i) = (a \<le> i \<and> i < b \<and> P i \<and> (\<forall>j. a \<le> j \<and> j < i \<longrightarrow> \<not> P j))"
proof
  assume "List.find P [a..<b] = Some i"
  then obtain k where k: "k < length [a..<b]" "P ([a..<b] ! k)" "i = [a..<b] ! k"
    "\<forall>j<k. \<not> P ([a..<b] ! j)"
    unfolding find_Some_iff by blast
  from k(1) have kb: "a + k < b" by simp
  with k(3) have i: "i = a + k" by simp
  have "\<not> P j" if "a \<le> j" "j < i" for j
  proof -
    have "j - a < k" using that i by arith
    with k(4) have "\<not> P ([a..<b] ! (j - a))" by blast
    moreover have "[a..<b] ! (j - a) = j" using that i kb by simp
    ultimately show ?thesis by simp
  qed
  with k(2) i kb show "a \<le> i \<and> i < b \<and> P i \<and> (\<forall>j. a \<le> j \<and> j < i \<longrightarrow> \<not> P j)"
    by simp
next
  assume r: "a \<le> i \<and> i < b \<and> P i \<and> (\<forall>j. a \<le> j \<and> j < i \<longrightarrow> \<not> P j)"
  have "i - a < b - a" using r by arith
  then have "i - a < length [a..<b]" by simp
  moreover have "[a..<b] ! (i - a) = i" using r by simp
  moreover have "\<forall>j<i - a. \<not> P ([a..<b] ! j)"
  proof (intro allI impI)
    fix j assume "j < i - a"
    then have "a + j < i" "a + j < b" using r by arith+
    then show "\<not> P ([a..<b] ! j)" using r by simp
  qed
  ultimately show "List.find P [a..<b] = Some i"
    unfolding find_Some_iff using r by (intro exI[of _ "i - a"]) simp
qed

lemma find_marker_Some:
  "(List.find (occurs_at ''node_modules'' p) [0..<Suc (length p)] = Some i)
     = first_occurrence ''node_modules'' p i"
proof -
  have "i < Suc (length p)" if "occurs_at ''node_modules'' p i"
    using occurs_at_length[of "''node_modules''" p i] that by simp
  then show ?thesis
    unfolding find_upt_Some first_occurrence_iff by auto
qed

lemma find_marker_None:
  "(List.find (occurs_at ''node_modules'' p) [0..<Suc (length p)] = None)
     = (\<not> contains ''node_modules'' p)"
  by (auto simp: find_None_iff contains_def list_ex_iff simp del: upt_Suc)

lemma find_slash_Some:
  "(List.find (\<lambda>j. p ! j = CHR ''/'') [k..<length p] = Some j) = first_slash_from p k j"
  unfolding find_upt_Some first_slash_from_iff by auto

lemma find_slash_None:
  "(List.find (\<lambda>j. p ! j = CHR ''/'') [k..<length p] = None) = (\<not> has_slash_from p k)"
  by (auto simp: find_None_iff has_slash_from_def list_ex_iff)

lemma spec_package_dir_below:
  "first_occurrence ''node_modules'' p i \<Longrightarrow> first_slash_from p (i + 13) j
   \<Longrightarrow> spec_package_dir p = take j p"
  by (simp add: spec_package_dir_def find_marker_Some[symmetric] find_slash_Some[symmetric])

lemma inside_package_iff:
  "inside_package p = (\<exists>i. first_occurrence ''node_modules'' p i \<and> has_slash_from p (i + 13))"
proof (cases "List.find (occurs_at ''node_modules'' p) [0..<Suc (length p)]")
  case None
  then have "\<not> contains ''node_modules'' p" using find_marker_None[of p] by blast
  then have no: "\<not> first_occurrence ''node_modules'' p i" for i
    using first_occurrence_contains[of "''node_modules''" p i] by auto
  have "\<not> inside_package p" unfolding inside_package_def None by simp
  with no show ?thesis by blast
next
  case (Some i)
  then have i: "first_occurrence ''node_modules'' p i" using find_marker_Some[of p i] by blast
  have eq: "inside_package p = has_slash_from p (i + 13)"
    unfolding inside_package_def Some by simp
  show ?thesis
  proof
    assume "inside_package p"
    with eq i show "\<exists>i. first_occurrence ''node_modules'' p i \<and> has_slash_from p (i + 13)"
      by blast
  next
    assume "\<exists>i. first_occurrence ''node_modules'' p i \<and> has_slash_from p (i + 13)"
    then obtain i' where i': "first_occurrence ''node_modules'' p i'"
      and h: "has_slash_from p (i' + 13)" by blast
    from first_occurrence_unique[OF i' i] h eq show "inside_package p" by simp
  qed
qed

text \<open>
  A key with at most one colon has the same input for the code and for the
  specification. With two colons or more they differ: the code takes the text between the
  first and the second colon.
\<close>

lemma colons_zero: "(colons k = 0) = (CHR '':'' \<notin> set k)"
  by (auto simp: colons_def filter_empty_conv)

lemma input_of_key_spec:
  assumes "colons k \<le> 1"
  shows "input_of_key k = spec_input_path k"
proof (cases "CHR '':'' \<in> set k")
  case False
  then show ?thesis by (simp add: input_of_key_def spec_input_path_def)
next
  case True
  define a where "a = takeWhile (\<lambda>c. c \<noteq> CHR '':'') k"
  define r where "r = dropWhile (\<lambda>c. c \<noteq> CHR '':'') k"
  have k: "k = a @ r" by (simp add: a_def r_def)
  have na: "CHR '':'' \<notin> set a" unfolding a_def by (auto dest: set_takeWhileD)
  have "r \<noteq> []" using True unfolding r_def by (simp add: dropWhile_eq_Nil_conv) 
  moreover have "hd r = CHR '':''" if "r \<noteq> []"
    using hd_dropWhile[of "\<lambda>c. c \<noteq> CHR '':''" k] that unfolding r_def by simp
  ultimately obtain b where r: "r = CHR '':'' # b" by (cases r) auto
  have "colons k = colons a + Suc (colons b)" by (simp add: k r colons_def)
  with assms have "colons b = 0" by simp
  then have nb: "CHR '':'' \<notin> set b" by (simp add: colons_zero)
  have "input_of_key k = b" unfolding k r using na nb by (rule input_of_key_scheme)
  moreover have "spec_input_path k = b" using True r by (simp add: spec_input_path_def r_def)
  ultimately show ?thesis by simp
qed

lemma scheme_truncation_example:
  "input_of_key ''http-url:https://cdn.example.com/x.js'' = ''https''
   \<and> spec_input_path ''http-url:https://cdn.example.com/x.js'' = ''https://cdn.example.com/x.js''"
  by (simp add: input_of_key_def spec_input_path_def)

text \<open>
  For such keys the loop collects the leaf targets of the specification, and the package
  targets of those dependency paths that lie below their package directory.
\<close>

lemma scanned_inputs_spec:
  assumes "\<forall>k \<in> set keys. colons k \<le> 1"
  shows "scanned_inputs keys = spec_leaf_targets keys"
proof -
  have "input_of_key ` set keys = spec_input_path ` set keys"
    using assms by (auto simp: input_of_key_spec intro!: image_cong)
  then show ?thesis by (auto simp: scanned_inputs_def spec_leaf_targets_def)
qed

lemma scanned_modules_spec:
  assumes "\<forall>k \<in> set keys. colons k \<le> 1"
  shows "scanned_modules keys
     = spec_package_targets (filter (\<lambda>k. inside_package (spec_input_path k)) keys)"
proof (intro set_eqI iffI)
  fix d assume "d \<in> scanned_modules keys"
  then obtain k i j where k: "k \<in> set keys" and d: "d = take j (input_of_key k)"
    and i: "first_occurrence ''node_modules'' (input_of_key k) i"
    and j: "first_slash_from (input_of_key k) (i + 13) j"
    by (auto simp: scanned_modules_def)
  have e: "input_of_key k = spec_input_path k" using assms k by (simp add: input_of_key_spec)
  have "inside_package (spec_input_path k)"
    using i j first_slash_has unfolding inside_package_iff e by blast
  moreover have "contains ''node_modules'' (spec_input_path k)"
    using i unfolding e by (rule first_occurrence_contains[rotated]) simp
  moreover have "spec_package_dir (spec_input_path k) = d"
    using spec_package_dir_below i j d unfolding e by simp
  ultimately show "d \<in> spec_package_targets (filter (\<lambda>k. inside_package (spec_input_path k)) keys)"
    using k unfolding spec_package_targets_def by force
next
  fix d assume "d \<in> spec_package_targets (filter (\<lambda>k. inside_package (spec_input_path k)) keys)"
  then obtain k where k: "k \<in> set keys" and ins: "inside_package (spec_input_path k)"
    and d: "d = spec_package_dir (spec_input_path k)"
    unfolding spec_package_targets_def by auto
  have e: "input_of_key k = spec_input_path k" using assms k by (simp add: input_of_key_spec)
  from ins obtain i where i: "first_occurrence ''node_modules'' (spec_input_path k) i"
    and h: "has_slash_from (spec_input_path k) (i + 13)"
    unfolding inside_package_iff by blast
  from h obtain j where j: "first_slash_from (spec_input_path k) (i + 13) j"
    using first_slash_exists by blast
  have "d = take j (input_of_key k)" using d spec_package_dir_below[OF i j] e by simp
  then show "d \<in> scanned_modules keys"
    using k i j unfolding scanned_modules_def e[symmetric] by blast
qed

section \<open>Properties of the controller\<close>

lemma scan_ex: "scan_inputs {} {} [''src/index.ts'', ''src/style.css'', ''node_modules/lib/index.js'']
   = ({''src/index.ts'', ''src/style.css''}, {''node_modules/lib''})"
  by (simp add: scan_inputs_def scan_step_def input_of_key_def indexOf_def Let_def insert_commute)

lemma scan_ex2: "scan_inputs {} {} [''src/index.ts'', ''node_modules/other/a.js'']
      = ({''src/index.ts''}, {''node_modules/other''})"
  by (simp add: scan_inputs_def scan_step_def input_of_key_def indexOf_def Let_def)

lemma scan_ex3: "scan_inputs {} {} [''src/index.ts'', ''node_modules/left-pad.js'']
      = ({''src/index.ts''}, {})"
  by (simp add: scan_inputs_def scan_step_def input_of_key_def indexOf_def Let_def)

lemma ex_idle_eval: "ex_idle = \<lparr>rebuild = Incremental 1, running = False,
     watchedInputs = {}, watchedModules = {},
     inputWatcher = \<lparr>watched = {''src/index.ts'', ''src/style.css''}, listeners = 1, is_closed = False\<rparr>,
     moduleWatcher = \<lparr>watched = {''node_modules/lib''}, listeners = 1, is_closed = False\<rparr>,
     timers = 0, pending = 0, waiters = 0, invoked = [InitialBuild]\<rparr>"
  by (simp add: ex_idle_def ex_build_def triggerBuild_finish_def triggerBuild_begin_def
      init_controller_def validateResult_def scan_ex timer_fire_def startWatchers_def emit_end_def
      w_close_def w_add_def w_unwatch_def w_once_def Let_def)

lemma ex_begin_eval: "triggerBuild_begin ex_idle
      = \<lparr>rebuild = Incremental 1, running = True, watchedInputs = {}, watchedModules = {},
         inputWatcher = \<lparr>watched = {}, listeners = 0, is_closed = True\<rparr>,
         moduleWatcher = \<lparr>watched = {}, listeners = 0, is_closed = True\<rparr>,
         timers = 0, pending = 0, waiters = 0, invoked = [Incremental 1, InitialBuild]\<rparr>"
  by (simp add: ex_idle_eval triggerBuild_begin_def w_close_def)

lemma ex_enter_eval: "triggerBuild_enter ex_idle
      = \<lparr>rebuild = Incremental 1, running = True, watchedInputs = {}, watchedModules = {},
         inputWatcher = \<lparr>watched = {}, listeners = 0, is_closed = True\<rparr>,
         moduleWatcher = \<lparr>watched = {''node_modules/lib''}, listeners = 1, is_closed = False\<rparr>,
         timers = 0, pending = 0, waiters = 0, invoked = [InitialBuild]\<rparr>"
  by (simp add: ex_idle_eval triggerBuild_enter_def w_close_def)

lemma ex_overlap_eval: "ex_overlap
      = \<lparr>rebuild = Incremental 2, running = False, watchedInputs = {}, watchedModules = {},
         inputWatcher = \<lparr>watched = {''src/index.ts'', ''src/style.css''}, listeners = 0, is_closed = False\<rparr>,
         moduleWatcher = \<lparr>watched = {''node_modules/lib'', ''node_modules/other''}, listeners = 0,
           is_closed = False\<rparr>,
         timers = 2, pending = 0, waiters = 0,
         invoked = [Incremental 1, Incremental 1, InitialBuild]\<rparr>"
  unfolding ex_overlap_def ex_begin_eval
  by (simp add: ex_build_def ex_build2_def triggerBuild_finish_def
      triggerBuild_begin_def validateResult_def scan_ex scan_ex2 startWatchers_def emit_end_def
      w_close_def w_add_def w_unwatch_def Let_def insert_commute)

lemma not_reports_closed: "is_closed w \<Longrightarrow> \<not> reports_input w path \<and> \<not> reports_module w path"
  by (simp add: reports_input_def reports_module_def)

lemma triggerBuild_begin_steps:
  "triggerBuild_begin s = triggerBuild_invoke (triggerBuild_close_module (triggerBuild_enter s))"
  by (simp add: triggerBuild_begin_def triggerBuild_invoke_def triggerBuild_close_module_def
      triggerBuild_enter_def)

lemma r_begin: "reachable s \<Longrightarrow> reachable (triggerBuild_begin s)"
  unfolding triggerBuild_begin_steps by (intro r_invoke r_close_module r_enter)

lemma ctl_inv_init: "ctl_inv init_controller"
  by (simp add: ctl_inv_def init_controller_def)

lemma ctl_inv_enter: "ctl_inv s \<Longrightarrow> ctl_inv (triggerBuild_enter s)"
  by (simp add: ctl_inv_def triggerBuild_enter_def w_close_def)

lemma ctl_inv_close_module: "ctl_inv s \<Longrightarrow> ctl_inv (triggerBuild_close_module s)"
  by (simp add: ctl_inv_def triggerBuild_close_module_def w_close_def)

lemma ctl_inv_invoke: "ctl_inv s \<Longrightarrow> ctl_inv (triggerBuild_invoke s)"
  by (simp add: ctl_inv_def triggerBuild_invoke_def)

lemma ctl_inv_begin: "ctl_inv s \<Longrightarrow> ctl_inv (triggerBuild_begin s)"
  unfolding triggerBuild_begin_steps by (intro ctl_inv_invoke ctl_inv_close_module ctl_inv_enter)

lemma begin_closed:
  "is_closed (inputWatcher (triggerBuild_begin s)) \<and> is_closed (moduleWatcher (triggerBuild_begin s))
   \<and> running (triggerBuild_begin s)"
  by (simp add: triggerBuild_begin_def w_close_def)

lemma ctl_inv_failed: "ctl_inv s \<Longrightarrow> ctl_inv (snd (triggerBuild_failed s))"
  by (simp add: ctl_inv_def triggerBuild_failed_def startWatchers_def emit_end_def)

lemma ctl_inv_finish: "ctl_inv s \<Longrightarrow> ctl_inv (snd (triggerBuild_finish outcome hook_ok s))"
  by (auto simp: triggerBuild_finish_def ctl_inv_failed Let_def split: option.splits sum.splits prod.splits)
     (simp add: ctl_inv_def startWatchers_def emit_end_def w_add_def w_unwatch_def)

lemma ctl_inv_timer: "ctl_inv s \<Longrightarrow> ctl_inv (timer_fire s)"
  by (simp add: ctl_inv_def timer_fire_def w_once_def Let_def)

lemma onInputEvent_step: "\<exists>k. onInputEvent hook_ok t = t\<lparr>pending := k\<rparr>"
proof -
  have "t = t\<lparr>pending := pending t\<rparr>" by simp
  then show ?thesis unfolding onInputEvent_def by (metis (full_types))
qed

lemma onInputEvent_pow: "\<exists>n'. (onInputEvent hook_ok ^^ n) s = s\<lparr>pending := n'\<rparr>"
proof (induction n)
  case 0
  have "s = s\<lparr>pending := pending s\<rparr>" by simp
  then show ?case by (metis funpow_0)
next
  case (Suc n)
  then obtain n' where n': "(onInputEvent hook_ok ^^ n) s = s\<lparr>pending := n'\<rparr>" by blast
  obtain k where "onInputEvent hook_ok (s\<lparr>pending := n'\<rparr>) = s\<lparr>pending := n'\<rparr>\<lparr>pending := k\<rparr>"
    using onInputEvent_step by blast
  with n' have "(onInputEvent hook_ok ^^ Suc n) s = s\<lparr>pending := k\<rparr>" by simp
  then show ?case ..
qed

lemma onModuleEvent_step: "\<exists>k. onModuleEvent hook_ok t = t\<lparr>pending := k\<rparr>"
proof -
  have "t = t\<lparr>pending := pending t\<rparr>" by simp
  then show ?thesis unfolding onModuleEvent_def by (metis (full_types))
qed

lemma onModuleEvent_pow: "\<exists>n'. (onModuleEvent hook_ok ^^ n) s = s\<lparr>pending := n'\<rparr>"
proof (induction n)
  case 0
  have "s = s\<lparr>pending := pending s\<rparr>" by simp
  then show ?case by (metis funpow_0)
next
  case (Suc n)
  then obtain n' where n': "(onModuleEvent hook_ok ^^ n) s = s\<lparr>pending := n'\<rparr>" by blast
  obtain k where "onModuleEvent hook_ok (s\<lparr>pending := n'\<rparr>) = s\<lparr>pending := n'\<rparr>\<lparr>pending := k\<rparr>"
    using onModuleEvent_step by blast
  with n' have "(onModuleEvent hook_ok ^^ Suc n) s = s\<lparr>pending := k\<rparr>" by simp
  then show ?case ..
qed

text \<open>Handlers that do not chain: while running, or when the hook throws.\<close>

lemma onInputEvent_idle_pow:
  "running s \<or> \<not> hook_ok \<Longrightarrow> (onInputEvent hook_ok ^^ n) s = s"
  by (induction n) (auto simp: onInputEvent_def)

lemma onModuleEvent_idle_pow:
  "running s \<or> \<not> hook_ok \<Longrightarrow> (onModuleEvent hook_ok ^^ n) s = s"
  by (induction n) (auto simp: onModuleEvent_def)

lemma fs_change_running:
  assumes "ctl_inv s" "running s" "is_closed (moduleWatcher s)"
  shows "fs_change path hook_ok s = s"
  using assms by (simp add: ctl_inv_def fs_change_def Let_def not_reports_closed)

lemma fs_change_running_window:
  assumes "ctl_inv s" "running s"
  shows "fs_change path hook_ok s = s
     \<or> fs_change path hook_ok s = s\<lparr>moduleWatcher := (moduleWatcher s)\<lparr>listeners := 0\<rparr>\<rparr>"
proof -
  have c: "\<not> reports_input (inputWatcher s) path"
    using assms by (simp add: ctl_inv_def not_reports_closed)
  have q: "(onModuleEvent hook_ok ^^ n) t = t" if "running t" for t n
    using that onModuleEvent_idle_pow[of t hook_ok n] by simp
  show ?thesis
    using c assms(2) by (simp add: fs_change_def Let_def q)
qed

lemma fs_change_shape:
  "\<exists>a b n. fs_change path hook_ok s
     = s\<lparr>inputWatcher := (inputWatcher s)\<lparr>listeners := a\<rparr>,
         moduleWatcher := (moduleWatcher s)\<lparr>listeners := b\<rparr>, pending := n\<rparr>"
proof -
  define s1 where "s1 = (if reports_input (inputWatcher s) path \<and> listeners (inputWatcher s) > 0
                then ((onInputEvent hook_ok) ^^ listeners (inputWatcher s))
                       (s\<lparr>inputWatcher := (inputWatcher s)\<lparr>listeners := 0\<rparr>\<rparr>)
                else s)"
  have i1: "\<exists>a n. s1 = s\<lparr>inputWatcher := (inputWatcher s)\<lparr>listeners := a\<rparr>, pending := n\<rparr>"
  proof (cases "reports_input (inputWatcher s) path \<and> listeners (inputWatcher s) > 0")
    case True
    obtain n' where "(onInputEvent hook_ok ^^ listeners (inputWatcher s))
        (s\<lparr>inputWatcher := (inputWatcher s)\<lparr>listeners := 0\<rparr>\<rparr>)
        = (s\<lparr>inputWatcher := (inputWatcher s)\<lparr>listeners := 0\<rparr>\<rparr>)\<lparr>pending := n'\<rparr>"
      using onInputEvent_pow by blast
    with True have "s1 = s\<lparr>inputWatcher := (inputWatcher s)\<lparr>listeners := 0\<rparr>, pending := n'\<rparr>"
      by (simp add: s1_def)
    then show ?thesis by blast
  next
    case False
    then have "s1 = s\<lparr>inputWatcher := (inputWatcher s)\<lparr>listeners := listeners (inputWatcher s)\<rparr>,
        pending := pending s\<rparr>"
      by (simp add: s1_def)
    then show ?thesis by blast
  qed
  then obtain a n where s1: "s1 = s\<lparr>inputWatcher := (inputWatcher s)\<lparr>listeners := a\<rparr>, pending := n\<rparr>"
    by blast
  have fs: "fs_change path hook_ok s =
      (if reports_module (moduleWatcher s1) path \<and> listeners (moduleWatcher s1) > 0
         then ((onModuleEvent hook_ok) ^^ listeners (moduleWatcher s1))
                (s1\<lparr>moduleWatcher := (moduleWatcher s1)\<lparr>listeners := 0\<rparr>\<rparr>)
         else s1)"
    by (simp add: fs_change_def s1_def Let_def)
  show ?thesis
  proof (cases "reports_module (moduleWatcher s1) path \<and> listeners (moduleWatcher s1) > 0")
    case True
    obtain n' where "(onModuleEvent hook_ok ^^ listeners (moduleWatcher s1))
        (s1\<lparr>moduleWatcher := (moduleWatcher s1)\<lparr>listeners := 0\<rparr>\<rparr>)
        = (s1\<lparr>moduleWatcher := (moduleWatcher s1)\<lparr>listeners := 0\<rparr>\<rparr>)\<lparr>pending := n'\<rparr>"
      using onModuleEvent_pow by blast
    with True have "fs_change path hook_ok s
        = s\<lparr>inputWatcher := (inputWatcher s)\<lparr>listeners := a\<rparr>,
            moduleWatcher := (moduleWatcher s)\<lparr>listeners := 0\<rparr>, pending := n'\<rparr>"
      by (simp add: fs s1)
    then show ?thesis by blast
  next
    case False
    then have "fs_change path hook_ok s
        = s\<lparr>inputWatcher := (inputWatcher s)\<lparr>listeners := a\<rparr>,
            moduleWatcher := (moduleWatcher s)\<lparr>listeners := listeners (moduleWatcher s)\<rparr>,
            pending := n\<rparr>"
      by (simp add: fs s1)
    then show ?thesis by blast
  qed
qed

lemma ctl_inv_fs_change:
  assumes "ctl_inv s"
  shows "ctl_inv (fs_change path hook_ok s)"
proof -
  obtain a b n where "fs_change path hook_ok s
     = s\<lparr>inputWatcher := (inputWatcher s)\<lparr>listeners := a\<rparr>,
         moduleWatcher := (moduleWatcher s)\<lparr>listeners := b\<rparr>, pending := n\<rparr>"
    using fs_change_shape by blast
  with assms show ?thesis by (simp add: ctl_inv_def)
qed

lemma ctl_inv_pending: "ctl_inv s \<Longrightarrow> ctl_inv (run_pending s)"
proof -
  assume i: "ctl_inv s"
  then have "ctl_inv (s\<lparr>pending := pending s - 1\<rparr>)" by (simp add: ctl_inv_def)
  then have "ctl_inv (triggerBuild_enter (s\<lparr>pending := pending s - 1\<rparr>))" by (rule ctl_inv_enter)
  with i show ?thesis by (simp add: run_pending_def)
qed

lemma ctl_inv_wait: "ctl_inv s \<Longrightarrow> ctl_inv (snd (wait s))"
  by (simp add: ctl_inv_def wait_def)

lemma reachable_ctl_inv: "reachable s \<Longrightarrow> ctl_inv s"
proof (induction rule: reachable.induct)
  case r_init
  show ?case by (rule ctl_inv_init)
next
  case (r_enter s)
  then show ?case by (simp add: ctl_inv_enter)
next
  case (r_close_module s)
  then show ?case by (simp add: ctl_inv_close_module)
next
  case (r_invoke s)
  then show ?case by (simp add: ctl_inv_invoke)
next
  case (r_finish s outcome hook_ok)
  then show ?case by (simp add: ctl_inv_finish)
next
  case (r_timer s)
  then show ?case by (simp add: ctl_inv_timer)
next
  case (r_change s path hook_ok)
  then show ?case by (simp add: ctl_inv_fs_change)
next
  case (r_pending s)
  then show ?case by (simp add: ctl_inv_pending)
next
  case (r_wait s)
  then show ?case by (simp add: ctl_inv_wait)
qed

lemma reachable_ex_idle: "reachable ex_idle"
  unfolding ex_idle_def by (intro r_timer r_finish r_begin r_init)

lemma reachable_ex_overlap: "reachable ex_overlap"
  unfolding ex_overlap_def by (intro r_finish r_begin reachable_ex_idle)

lemma finish_success:
  assumes "ctl_inv s" "is_closed (inputWatcher s)" "is_closed (moduleWatcher s)"
    and "metafile res = Some m" "outputFiles res = Some ofs" "r_rebuild res = Some h"
  shows "triggerBuild_finish (Some res) True s =
     (res, s\<lparr>inputWatcher := (inputWatcher s)\<lparr>watched := scanned_inputs (inputs m), is_closed := False\<rparr>,
             moduleWatcher := (moduleWatcher s)\<lparr>watched := scanned_modules (inputs m), is_closed := False\<rparr>,
             waiters := 0, running := False, rebuild := h, timers := Suc (timers s)\<rparr>)"
proof -
  have w: "watchedInputs s = {}" "watchedModules s = {}"
    and c: "is_closed (inputWatcher s)" "is_closed (moduleWatcher s)"
       "watched (inputWatcher s) = {}" "watched (moduleWatcher s) = {}"
    using assms(1-3) by (simp_all add: ctl_inv_def)
  show ?thesis
    using assms(4-6)
    by (simp add: triggerBuild_finish_def validateResult_def w c scan_inputs_targets
        w_unwatch_def w_add_def emit_end_def startWatchers_def)
qed

text \<open>
  C2, as amended. Take a reachable state in which both watchers are closed, as they are
  from the start of a \<open>triggerBuild\<close> call until a call settles with success: so this
  is a build that no other successful build overlaps. Let its bundler return a result with
  a metafile, output files and a rebuild handle, let the \<open>onBuildResult\<close> hook complete,
  and let the input keys have at most one colon each. When the build has settled, the
  input watcher is open and holds exactly the leaf targets of the metafile's keys, and the
  module watcher is open and holds exactly the package targets of the keys whose
  dependency path lies below its package directory; and when the timer of
  \<open>startWatchers\<close> has run, each watcher has a listener.
\<close>

theorem watch_set_convergence:
  assumes "reachable s"
    and "is_closed (inputWatcher s)" and "is_closed (moduleWatcher s)"
    and "metafile res = Some m" and "outputFiles res \<noteq> None" and "r_rebuild res \<noteq> None"
    and "\<forall>k \<in> set (inputs m). colons k \<le> 1"
  shows "watched (inputWatcher (snd (triggerBuild_finish (Some res) True s)))
           = spec_leaf_targets (inputs m)
       \<and> watched (moduleWatcher (snd (triggerBuild_finish (Some res) True s)))
           = spec_package_targets (filter (\<lambda>k. inside_package (spec_input_path k)) (inputs m))
       \<and> \<not> is_closed (inputWatcher (snd (triggerBuild_finish (Some res) True s)))
       \<and> \<not> is_closed (moduleWatcher (snd (triggerBuild_finish (Some res) True s)))
       \<and> 0 < listeners (inputWatcher (timer_fire (snd (triggerBuild_finish (Some res) True s))))
       \<and> 0 < listeners (moduleWatcher (timer_fire (snd (triggerBuild_finish (Some res) True s))))"
proof -
  have i: "ctl_inv s" using assms(1) by (rule reachable_ctl_inv)
  obtain ofs h where o: "outputFiles res = Some ofs" "r_rebuild res = Some h"
    using assms(5,6) by auto
  show ?thesis
    unfolding finish_success[OF i assms(2,3,4) o]
    by (simp add: scanned_inputs_spec[OF assms(7)] scanned_modules_spec[OF assms(7)]
        timer_fire_def w_once_def Let_def)
qed

theorem watch_set_convergence_witness:
  "reachable (triggerBuild_begin ex_idle)
   \<and> is_closed (inputWatcher (triggerBuild_begin ex_idle))
   \<and> is_closed (moduleWatcher (triggerBuild_begin ex_idle))
   \<and> watched (inputWatcher ex_idle) = {''src/index.ts'', ''src/style.css''}
   \<and> watched (moduleWatcher ex_idle) = {''node_modules/lib''}
   \<and> spec_leaf_targets [''src/index.ts'', ''node_modules/other/a.js''] = {''src/index.ts''}
   \<and> spec_package_targets (filter (\<lambda>k. inside_package (spec_input_path k))
        [''src/index.ts'', ''node_modules/other/a.js'']) = {''node_modules/other''}
   \<and> watched (inputWatcher (snd (triggerBuild_finish (Some ex_build2) True (triggerBuild_begin ex_idle))))
        = {''src/index.ts''}
   \<and> watched (moduleWatcher (snd (triggerBuild_finish (Some ex_build2) True (triggerBuild_begin ex_idle))))
        = {''node_modules/other''}
   \<and> listeners (inputWatcher (timer_fire
        (snd (triggerBuild_finish (Some ex_build2) True (triggerBuild_begin ex_idle))))) = 1"
proof -
  have m: "metafile ex_build2 = Some \<lparr>inputs = [''src/index.ts'', ''node_modules/other/a.js''],
                      outputs = [''dist/index.js'']\<rparr>"
    and o: "outputFiles ex_build2 \<noteq> None" and r: "r_rebuild ex_build2 \<noteq> None"
    by (simp_all add: ex_build2_def)
  have c: "\<forall>k \<in> set (inputs \<lparr>inputs = [''src/index.ts'', ''node_modules/other/a.js''],
                      outputs = [''dist/index.js'']\<rparr>). colons k \<le> 1"
    by (simp add: colons_def)
  have run: "watched (inputWatcher (snd (triggerBuild_finish (Some ex_build2) True (triggerBuild_begin ex_idle))))
        = {''src/index.ts''}
     \<and> watched (moduleWatcher (snd (triggerBuild_finish (Some ex_build2) True (triggerBuild_begin ex_idle))))
        = {''node_modules/other''}
     \<and> listeners (inputWatcher (timer_fire
        (snd (triggerBuild_finish (Some ex_build2) True (triggerBuild_begin ex_idle))))) = 1"
    unfolding ex_begin_eval
    by (simp add: ex_build2_def triggerBuild_finish_def
        validateResult_def scan_ex2 startWatchers_def emit_end_def timer_fire_def
        w_add_def w_unwatch_def w_once_def Let_def)
  have rb: "reachable (triggerBuild_begin ex_idle)"
    by (intro r_begin reachable_ex_idle)
  have cl: "is_closed (inputWatcher (triggerBuild_begin ex_idle))"
    "is_closed (moduleWatcher (triggerBuild_begin ex_idle))"
    using begin_closed[of ex_idle] by simp_all
  show ?thesis
    using watch_set_convergence[OF rb cl m o r c] run rb cl
    by (simp add: ex_idle_eval)
qed

text \<open>
  C2 as stated fails in three ways. After two overlapping calls of \<open>triggerBuild\<close> from
  the idle state, the generation of the second build is installed and the watchers hold
  the targets of both builds. After a build that imports a file lying directly in the
  dependency directory, the module watcher holds nothing, where the package targets of
  the metafile are that file's path. And after a build with the key
  \<open>http-url:https://cdn.example.com/x.js\<close> the input watcher holds \<open>https\<close>, where the
  input path is \<open>https://cdn.example.com/x.js\<close>.
\<close>

theorem watch_set_counterexample:
  "reachable ex_overlap
   \<and> metafile ex_build2 = Some \<lparr>inputs = [''src/index.ts'', ''node_modules/other/a.js''],
                                 outputs = [''dist/index.js'']\<rparr>
   \<and> fst (triggerBuild_finish (Some ex_build2) True
        (snd (triggerBuild_finish (Some ex_build) True
           (triggerBuild_begin (triggerBuild_begin ex_idle))))) = ex_build2
   \<and> watched (inputWatcher ex_overlap) = {''src/index.ts'', ''src/style.css''}
   \<and> spec_leaf_targets [''src/index.ts'', ''node_modules/other/a.js''] = {''src/index.ts''}
   \<and> watched (moduleWatcher ex_overlap) = {''node_modules/lib'', ''node_modules/other''}
   \<and> spec_package_targets [''src/index.ts'', ''node_modules/other/a.js''] = {''node_modules/other''}
   \<and> metafile ex_build3 = Some \<lparr>inputs = [''src/index.ts'', ''node_modules/left-pad.js''],
                                 outputs = [''dist/index.js'']\<rparr>
   \<and> watched (moduleWatcher (snd (triggerBuild_finish (Some ex_build3) True (triggerBuild_begin ex_idle))))
        = {}
   \<and> spec_package_targets [''src/index.ts'', ''node_modules/left-pad.js'']
        = {''node_modules/left-pad.js''}
   \<and> metafile ex_build4 = Some \<lparr>inputs = [''http-url:https://cdn.example.com/x.js''],
                                 outputs = [''dist/index.js'']\<rparr>
   \<and> watched (inputWatcher (snd (triggerBuild_finish (Some ex_build4) True (triggerBuild_begin ex_idle))))
        = {''https''}
   \<and> spec_leaf_targets [''http-url:https://cdn.example.com/x.js'']
        = {''https://cdn.example.com/x.js''}"
proof -
  have g: "spec_leaf_targets [''http-url:https://cdn.example.com/x.js'']
        = {''https://cdn.example.com/x.js''}"
    by code_simp
  have sc: "scan_inputs {} {} [''http-url:https://cdn.example.com/x.js''] = ({''https''}, {})"
    by (simp add: scan_inputs_def scan_step_def input_of_key_def indexOf_def Let_def)
  have k: "watched (inputWatcher (snd (triggerBuild_finish (Some ex_build4) True (triggerBuild_begin ex_idle))))
        = {''https''}"
    unfolding ex_begin_eval
    by (simp add: ex_build4_def triggerBuild_finish_def
        validateResult_def sc startWatchers_def emit_end_def
        w_add_def w_unwatch_def Let_def)
  have a: "spec_leaf_targets [''src/index.ts'', ''node_modules/other/a.js''] = {''src/index.ts''}"
    by code_simp
  have b: "spec_package_targets [''src/index.ts'', ''node_modules/other/a.js''] = {''node_modules/other''}"
    by code_simp
  have c: "spec_package_targets [''src/index.ts'', ''node_modules/left-pad.js'']
      = {''node_modules/left-pad.js''}"
    by code_simp
  have d: "watched (moduleWatcher (snd (triggerBuild_finish (Some ex_build3) True (triggerBuild_begin ex_idle))))
        = {}"
    unfolding ex_begin_eval
    by (simp add: ex_build3_def triggerBuild_finish_def
        validateResult_def scan_ex3 startWatchers_def emit_end_def
        w_add_def w_unwatch_def Let_def)
  have e: "fst (triggerBuild_finish (Some ex_build2) True
        (snd (triggerBuild_finish (Some ex_build) True
           (triggerBuild_begin (triggerBuild_begin ex_idle))))) = ex_build2"
    by (simp add: ex_build2_def triggerBuild_finish_def validateResult_def Let_def split: prod.splits)
  show ?thesis
    using reachable_ex_overlap a b c d e g k
    by (simp add: ex_overlap_eval ex_build2_def ex_build3_def ex_build4_def)
qed

text \<open>
  Validation of results. Whatever \<open>triggerBuild\<close> returns passes \<open>validateResult\<close>:
  a result of the bundler that fails it is rejected inside the \<open>try\<close>, and the \<open>catch\<close>
  answers with the null result, which is valid once the rebuild handle is put in. So no
  outcome of the first build makes \<open>incrementalBuild\<close> throw.
\<close>

lemma validate_NULL: "validateResult (NULL_RESULT\<lparr>r_rebuild := Some h\<rparr>) = Inr (NULL_RESULT\<lparr>r_rebuild := Some h\<rparr>)"
  by (simp add: validateResult_def NULL_RESULT_def)

lemma validate_failed:
  "validateResult (fst (triggerBuild_failed s)) = Inr (fst (triggerBuild_failed s))"
  by (simp add: triggerBuild_failed_def validate_NULL)

lemma validateResult_Inr:
  "validateResult res = Inr res' \<Longrightarrow> res' = res \<and> validateResult res' = Inr res'"
  by (auto simp: validateResult_def split: if_splits)

lemma finish_validated:
  "validateResult (fst (triggerBuild_finish outcome hook_ok s))
     = Inr (fst (triggerBuild_finish outcome hook_ok s))"
proof (cases outcome)
  case None
  then show ?thesis by (simp add: triggerBuild_finish_def validate_failed)
next
  case (Some res)
  show ?thesis
  proof (cases "validateResult res")
    case (Inl e)
    with Some show ?thesis by (simp add: triggerBuild_finish_def validate_failed)
  next
    case (Inr res')
    then have v: "res' = res" "validateResult res' = Inr res'"
      using validateResult_Inr by blast+
    show ?thesis
    proof (cases "hook_ok \<and> metafile res \<noteq> None \<and> r_rebuild res \<noteq> None")
      case True
      then obtain m h where "metafile res = Some m" "r_rebuild res = Some h" by auto
      with Some Inr v True show ?thesis
        by (simp add: triggerBuild_finish_def Let_def split: prod.splits)
    next
      case False
      with Some Inr v show ?thesis
        by (auto simp: triggerBuild_finish_def validate_failed split: option.splits)
    qed
  qed
qed

lemma incrementalBuild_never_throws:
  "\<exists>res. fst (incrementalBuild outcome hook_ok) = Inr res"
  using finish_validated[of outcome hook_ok "triggerBuild_begin init_controller"]
  by (auto simp: incrementalBuild_def split: prod.splits sum.splits)

text \<open>
  C10, evaluated on a first result of the bundler without metafile: \<open>validateResult\<close>
  rejects it with the message that names the option, yet \<open>incrementalBuild\<close> does not
  throw; it returns the null result with \<open>triggerBuild\<close> as rebuild handle.
\<close>

theorem missing_metafile_not_reported:
  \<open>validateResult ex_no_metafile = Inl (Error ''incrementalBuild: "metafile" option must be "true"'')
   \<and> fst (incrementalBuild (Some ex_no_metafile) True)
       = Inr \<lparr>errors = [], warnings = [], metafile = Some \<lparr>inputs = [], outputs = []\<rparr>,
              outputFiles = Some [], r_rebuild = Some TriggerBuild\<rparr>\<close>
  by (simp add: incrementalBuild_def triggerBuild_finish_def triggerBuild_failed_def
      triggerBuild_begin_def init_controller_def validateResult_def ex_no_metafile_def
      NULL_RESULT_def startWatchers_def emit_end_def)

lemma failed_build_general:
  "fst (triggerBuild_finish None hook_ok (triggerBuild_begin s)) = NULL_RESULT\<lparr>r_rebuild := Some (rebuild s)\<rparr>
   \<and> rebuild (snd (triggerBuild_finish None hook_ok (triggerBuild_begin s))) = rebuild s
   \<and> is_closed (inputWatcher (timer_fire (snd (triggerBuild_finish None hook_ok (triggerBuild_begin s)))))
   \<and> is_closed (moduleWatcher (timer_fire (snd (triggerBuild_finish None hook_ok (triggerBuild_begin s)))))"
  by (simp add: triggerBuild_finish_def triggerBuild_failed_def triggerBuild_begin_def
      startWatchers_def emit_end_def timer_fire_def w_close_def w_once_def Let_def)

lemma fs_change_closed:
  "is_closed (inputWatcher s) \<Longrightarrow> is_closed (moduleWatcher s) \<Longrightarrow> fs_change path hook_ok s = s"
  by (simp add: fs_change_def not_reports_closed Let_def)

text \<open>
  C4, evaluated on a rebuild that throws after a first good build. The caller gets the
  null result with the old rebuild handle and the controller keeps that handle; the
  timer of \<open>startWatchers\<close> registers the listeners again. But both watchers were closed
  when the build began and the failure path adds no path to them: they stay closed and
  watch nothing, and a later change of a source file changes nothing in the controller.
\<close>

theorem failed_rebuild_leaves_unwatched:
  "watched (inputWatcher ex_idle) = {''src/index.ts'', ''src/style.css''}
   \<and> watched (moduleWatcher ex_idle) = {''node_modules/lib''}
   \<and> fst (triggerBuild_finish None True (triggerBuild_begin ex_idle))
        = \<lparr>errors = [], warnings = [], metafile = Some \<lparr>inputs = [], outputs = []\<rparr>,
           outputFiles = Some [], r_rebuild = Some (Incremental 1)\<rparr>
   \<and> timer_fire (snd (triggerBuild_finish None True (triggerBuild_begin ex_idle)))
        = \<lparr>rebuild = Incremental 1, running = False, watchedInputs = {}, watchedModules = {},
           inputWatcher = \<lparr>watched = {}, listeners = 1, is_closed = True\<rparr>,
           moduleWatcher = \<lparr>watched = {}, listeners = 1, is_closed = True\<rparr>,
           timers = 0, pending = 0, waiters = 0, invoked = [Incremental 1, InitialBuild]\<rparr>
   \<and> fs_change ''src/index.ts'' True
        (timer_fire (snd (triggerBuild_finish None True (triggerBuild_begin ex_idle))))
        = timer_fire (snd (triggerBuild_finish None True (triggerBuild_begin ex_idle)))"
proof -
  have t: "timer_fire (snd (triggerBuild_finish None True (triggerBuild_begin ex_idle)))
        = \<lparr>rebuild = Incremental 1, running = False, watchedInputs = {}, watchedModules = {},
           inputWatcher = \<lparr>watched = {}, listeners = 1, is_closed = True\<rparr>,
           moduleWatcher = \<lparr>watched = {}, listeners = 1, is_closed = True\<rparr>,
           timers = 0, pending = 0, waiters = 0, invoked = [Incremental 1, InitialBuild]\<rparr>"
    unfolding ex_begin_eval
    by (simp add: triggerBuild_finish_def triggerBuild_failed_def
        startWatchers_def emit_end_def timer_fire_def w_once_def Let_def)
  have f: "fst (triggerBuild_finish None True (triggerBuild_begin ex_idle))
        = \<lparr>errors = [], warnings = [], metafile = Some \<lparr>inputs = [], outputs = []\<rparr>,
           outputFiles = Some [], r_rebuild = Some (Incremental 1)\<rparr>"
    unfolding ex_begin_eval
    by (simp add: triggerBuild_finish_def triggerBuild_failed_def NULL_RESULT_def)
  show ?thesis
    unfolding t f
    by (simp add: ex_idle_eval fs_change_def reports_input_def reports_module_def Let_def)
qed

lemma handle_call_running: "running s \<Longrightarrow> handle_call c s = s"
  by (cases c) (simp_all add: onInputEvent_def onModuleEvent_def)

lemma begin_pow:
  "invoked ((triggerBuild_begin ^^ n) s) = replicate n (rebuild s) @ invoked s
   \<and> rebuild ((triggerBuild_begin ^^ n) s) = rebuild s"
  by (induction n) (simp_all add: triggerBuild_begin_def replicate_append_same)

lemma finish_own_result:
  assumes "validateResult res = Inr res"
  shows "fst (triggerBuild_finish (Some res) True s) = res"
proof -
  from assms obtain m h where "metafile res = Some m" "r_rebuild res = Some h"
    by (auto simp: validateResult_def split: if_splits)
  with assms show ?thesis
    by (simp add: triggerBuild_finish_def Let_def split: prod.splits)
qed

text \<open>
  C1, as amended. While \<open>running\<close> is set, calls of the watch handlers, in any number and
  order and whatever the hook does, leave the controller as it is: no bundler invocation
  is started or scheduled, and no handler gets the result of the build in flight.
  \<open>triggerBuild\<close> itself is not guarded, in no state: \<open>n\<close> calls that start one after
  the other invoke the current rebuild handle \<open>n\<close> times, and a call resolves with the
  result of its own invocation (the result of the bundler when it is valid and the hook
  completes, the null result with the current handle when the bundler throws), whatever
  the other calls do.
\<close>

theorem single_flight_only_for_handlers:
  "(running s \<longrightarrow> fold handle_call calls s = s)
   \<and> invoked ((triggerBuild_begin ^^ n) s) = replicate n (rebuild s) @ invoked s
   \<and> (validateResult res = Inr res \<longrightarrow> fst (triggerBuild_finish (Some res) True s) = res)
   \<and> fst (triggerBuild_finish None hook_ok s) = NULL_RESULT\<lparr>r_rebuild := Some (rebuild s)\<rparr>"
proof -
  have "fold handle_call calls s = s" if "running s"
    using that by (induction calls) (simp_all add: handle_call_running)
  moreover have "fst (triggerBuild_finish None hook_ok s) = NULL_RESULT\<lparr>r_rebuild := Some (rebuild s)\<rparr>"
    by (simp add: triggerBuild_finish_def triggerBuild_failed_def)
  ultimately show ?thesis using begin_pow[of n s] finish_own_result[of res s] by blast
qed

theorem single_flight_only_for_handlers_witness:
  "running (triggerBuild_enter ex_idle)
   \<and> fold handle_call [ModuleCall True, ModuleCall False] (triggerBuild_enter ex_idle)
       = triggerBuild_enter ex_idle
   \<and> invoked ex_idle = [InitialBuild]
   \<and> invoked ((triggerBuild_begin ^^ 2) ex_idle) = [Incremental 1, Incremental 1, InitialBuild]
   \<and> validateResult ex_build2 = Inr ex_build2
   \<and> fst (triggerBuild_finish (Some ex_build2) True ((triggerBuild_begin ^^ 2) ex_idle)) = ex_build2"
proof -
  have r: "running (triggerBuild_enter ex_idle)" by (simp add: triggerBuild_enter_def)
  have v: "validateResult ex_build2 = Inr ex_build2"
    by (simp add: validateResult_def ex_build2_def)
  note t1 = single_flight_only_for_handlers[where s = "triggerBuild_enter ex_idle"
      and calls = "[ModuleCall True, ModuleCall False]"]
  note t2 = single_flight_only_for_handlers[where s = ex_idle and n = 2]
  note t3 = single_flight_only_for_handlers[where s = "(triggerBuild_begin ^^ 2) ex_idle"
      and res = ex_build2]
  have a: "fold handle_call [ModuleCall True, ModuleCall False] (triggerBuild_enter ex_idle)
       = triggerBuild_enter ex_idle"
    using t1 r by blast
  have b: "invoked ((triggerBuild_begin ^^ 2) ex_idle) = replicate 2 (rebuild ex_idle) @ invoked ex_idle"
    using t2 by blast
  have c: "fst (triggerBuild_finish (Some ex_build2) True ((triggerBuild_begin ^^ 2) ex_idle)) = ex_build2"
    using t3 v by blast
  show ?thesis
    using r v a b c by (simp add: ex_idle_eval numeral_2_eq_2)
qed

text \<open>
  C1 as stated fails for \<open>triggerBuild\<close> itself, which \<open>incrementalBuild\<close> hands out as
  the rebuild function once the first build is done: from the idle state after that
  build, a call during a build invokes the bundler a second time, and the two calls
  resolve with the results of their own invocations.
\<close>

theorem single_flight_counterexample:
  "reachable ex_idle \<and> \<not> running ex_idle \<and> invoked ex_idle = [InitialBuild]
   \<and> running (triggerBuild_begin ex_idle)
   \<and> invoked (triggerBuild_begin ex_idle) = [Incremental 1, InitialBuild]
   \<and> invoked (triggerBuild_begin (triggerBuild_begin ex_idle))
       = [Incremental 1, Incremental 1, InitialBuild]
   \<and> fst (triggerBuild_finish (Some ex_build) True (triggerBuild_begin (triggerBuild_begin ex_idle)))
       = ex_build
   \<and> fst (triggerBuild_finish (Some ex_build2) True
        (snd (triggerBuild_finish (Some ex_build) True (triggerBuild_begin (triggerBuild_begin ex_idle)))))
       = ex_build2
   \<and> ex_build \<noteq> ex_build2"
proof -
  have "invoked (triggerBuild_begin (triggerBuild_begin ex_idle))
       = [Incremental 1, Incremental 1, InitialBuild]"
    unfolding ex_begin_eval by (simp add: triggerBuild_begin_def)
  moreover have "fst (triggerBuild_finish (Some ex_build) True (triggerBuild_begin (triggerBuild_begin ex_idle)))
       = ex_build"
    by (simp add: triggerBuild_finish_def validateResult_def ex_build_def Let_def split: prod.splits)
  moreover have "fst (triggerBuild_finish (Some ex_build2) True
        (snd (triggerBuild_finish (Some ex_build) True (triggerBuild_begin (triggerBuild_begin ex_idle)))))
       = ex_build2"
    by (simp add: triggerBuild_finish_def validateResult_def ex_build2_def Let_def split: prod.splits)
  moreover have "ex_build \<noteq> ex_build2" by (simp add: ex_build_def ex_build2_def)
  ultimately show ?thesis
    using reachable_ex_idle by (simp add: ex_begin_eval) (simp add: ex_idle_eval)
qed

lemma fs_change_quiet:
  assumes "running s \<or> \<not> hook_ok"
  shows "pending (fs_change path hook_ok s) = pending s"
proof -
  have q: "(onInputEvent hook_ok ^^ n) t = t" "(onModuleEvent hook_ok ^^ n) t = t"
    if "running t = running s" for t n
    using that assms onInputEvent_idle_pow[of t hook_ok n] onModuleEvent_idle_pow[of t hook_ok n]
    by auto
  show ?thesis
    by (simp add: fs_change_def Let_def q)
qed

lemma fs_change_unreported:
  assumes "\<not> (reports_input (inputWatcher s) path \<and> 0 < listeners (inputWatcher s))"
    and "\<not> (reports_module (moduleWatcher s) path \<and> 0 < listeners (moduleWatcher s))"
  shows "fs_change path hook_ok s = s"
  using assms by (auto simp: fs_change_def Let_def)

text \<open>
  C6, as amended. In a reachable state in which a build is running, a change on disk is
  dropped: the handlers return the state as it is, and the change leaves the controller as
  it is, except that in the step before the module watcher is closed a change below a
  watched package uses up the \<open>once\<close> listener of that watcher; nothing records the
  change, so no rebuild follows from it. And in any state, a change schedules a
  \<open>triggerBuild\<close> only if no build is running, the hook does not throw, and a watcher
  that reports the change has a listener registered.
\<close>

theorem change_while_building_dropped:
  "(reachable s \<and> running s \<longrightarrow>
      (fs_change path hook_ok s = s
         \<or> fs_change path hook_ok s = s\<lparr>moduleWatcher := (moduleWatcher s)\<lparr>listeners := 0\<rparr>\<rparr>)
      \<and> (is_closed (moduleWatcher s) \<longrightarrow> fs_change path hook_ok s = s)
      \<and> onInputEvent hook_ok s = s \<and> onModuleEvent hook_ok s = s)
   \<and> (pending (fs_change path hook_ok s) \<noteq> pending s \<longrightarrow>
        \<not> running s \<and> hook_ok
        \<and> ((reports_input (inputWatcher s) path \<and> 0 < listeners (inputWatcher s))
           \<or> (reports_module (moduleWatcher s) path \<and> 0 < listeners (moduleWatcher s))))"
proof -
  have dropped: "(fs_change path hook_ok s = s
         \<or> fs_change path hook_ok s = s\<lparr>moduleWatcher := (moduleWatcher s)\<lparr>listeners := 0\<rparr>\<rparr>)
      \<and> (is_closed (moduleWatcher s) \<longrightarrow> fs_change path hook_ok s = s)
      \<and> onInputEvent hook_ok s = s \<and> onModuleEvent hook_ok s = s"
    if a: "reachable s \<and> running s"
  proof -
    from a have i: "ctl_inv s" by (simp add: reachable_ctl_inv)
    have "fs_change path hook_ok s = s
         \<or> fs_change path hook_ok s = s\<lparr>moduleWatcher := (moduleWatcher s)\<lparr>listeners := 0\<rparr>\<rparr>"
      using i a by (simp add: fs_change_running_window)
    moreover have "fs_change path hook_ok s = s" if "is_closed (moduleWatcher s)"
      using i a that by (simp add: fs_change_running)
    ultimately show ?thesis
      using a by (simp add: onInputEvent_def onModuleEvent_def)
  qed
  have only: "\<not> running s \<and> hook_ok
        \<and> ((reports_input (inputWatcher s) path \<and> 0 < listeners (inputWatcher s))
           \<or> (reports_module (moduleWatcher s) path \<and> 0 < listeners (moduleWatcher s)))"
    if c: "pending (fs_change path hook_ok s) \<noteq> pending s"
  proof -
    have "\<not> (running s \<or> \<not> hook_ok)" using c fs_change_quiet[of s hook_ok path] by blast
    moreover have "(reports_input (inputWatcher s) path \<and> 0 < listeners (inputWatcher s))
           \<or> (reports_module (moduleWatcher s) path \<and> 0 < listeners (moduleWatcher s))"
    proof (rule ccontr)
      assume "\<not> ((reports_input (inputWatcher s) path \<and> 0 < listeners (inputWatcher s))
           \<or> (reports_module (moduleWatcher s) path \<and> 0 < listeners (moduleWatcher s)))"
      then have "fs_change path hook_ok s = s"
        using fs_change_unreported[of s path hook_ok] by blast
      with c show False by simp
    qed
    ultimately show ?thesis by blast
  qed
  show ?thesis using dropped only by blast
qed

theorem change_while_building_dropped_witness:
  "reachable (triggerBuild_enter ex_idle) \<and> running (triggerBuild_enter ex_idle)
   \<and> fs_change ''node_modules/lib/index.js'' True (triggerBuild_enter ex_idle)
        = (triggerBuild_enter ex_idle)
            \<lparr>moduleWatcher := (moduleWatcher (triggerBuild_enter ex_idle))\<lparr>listeners := 0\<rparr>\<rparr>
   \<and> reachable (triggerBuild_begin ex_idle) \<and> running (triggerBuild_begin ex_idle)
   \<and> is_closed (moduleWatcher (triggerBuild_begin ex_idle))
   \<and> fs_change ''src/index.ts'' True (triggerBuild_begin ex_idle) = triggerBuild_begin ex_idle
   \<and> onModuleEvent True (triggerBuild_enter ex_idle) = triggerBuild_enter ex_idle
   \<and> pending ex_idle = 0 \<and> pending (fs_change ''src/index.ts'' True ex_idle) = 1
   \<and> \<not> running ex_idle \<and> reports_input (inputWatcher ex_idle) ''src/index.ts''
   \<and> listeners (inputWatcher ex_idle) = 1"
proof -
  have r1: "reachable (triggerBuild_enter ex_idle)"
    by (intro r_enter reachable_ex_idle)
  have b1: "running (triggerBuild_enter ex_idle)" by (simp add: triggerBuild_enter_def)
  have w: "fs_change ''node_modules/lib/index.js'' True (triggerBuild_enter ex_idle)
        = (triggerBuild_enter ex_idle)
            \<lparr>moduleWatcher := (moduleWatcher (triggerBuild_enter ex_idle))\<lparr>listeners := 0\<rparr>\<rparr>"
    unfolding ex_enter_eval
    by (simp add: fs_change_def reports_input_def reports_module_def below_within_def
        onModuleEvent_def Let_def)
  have r: "reachable (triggerBuild_begin ex_idle)"
    by (intro r_begin reachable_ex_idle)
  have b: "running (triggerBuild_begin ex_idle) \<and> is_closed (moduleWatcher (triggerBuild_begin ex_idle))"
    using begin_closed[of ex_idle] by simp
  have p: "pending ex_idle = 0 \<and> pending (fs_change ''src/index.ts'' True ex_idle) = 1"
    by (simp add: ex_idle_eval fs_change_def reports_input_def reports_module_def
        below_within_def onInputEvent_def Let_def)
  note t1 = change_while_building_dropped[where s = "triggerBuild_enter ex_idle"
        and path = "''node_modules/lib/index.js''" and hook_ok = True]
  note t2 = change_while_building_dropped[where s = "triggerBuild_begin ex_idle"
        and path = "''src/index.ts''" and hook_ok = True]
  note t3 = change_while_building_dropped[where s = ex_idle and path = "''src/index.ts''"
        and hook_ok = True]
  have h: "onModuleEvent True (triggerBuild_enter ex_idle) = triggerBuild_enter ex_idle"
    using t1 r1 b1 by blast
  have d: "fs_change ''src/index.ts'' True (triggerBuild_begin ex_idle) = triggerBuild_begin ex_idle"
    using t2 r b by blast
  have t: "\<not> running ex_idle
        \<and> ((reports_input (inputWatcher ex_idle) ''src/index.ts'' \<and> 0 < listeners (inputWatcher ex_idle))
           \<or> (reports_module (moduleWatcher ex_idle) ''src/index.ts'' \<and> 0 < listeners (moduleWatcher ex_idle)))"
    using t3 p by simp
  show ?thesis using r1 b1 w r b p h d t
    by (simp add: ex_idle_eval reports_input_def)
qed

text \<open>
  C6 as stated fails. During the second build two files change. The first is a file of
  the watched package, in the step before the module watcher is closed: the watcher
  reports it, the handler returns at once, and only the listener is gone. The second is a
  source file, after the bundler was invoked: both watchers are closed and nothing at all
  happens. The build settles, the watchers are armed again, and the controller is idle
  with no rebuild started or scheduled: the bundler was invoked for the first build and
  for the one in flight, and \<open>run_pending\<close> has nothing to run.
\<close>

theorem lost_edit_counterexample:
  "running (triggerBuild_enter ex_idle)
   \<and> reports_module (moduleWatcher (triggerBuild_enter ex_idle)) ''node_modules/lib/index.js''
   \<and> listeners (moduleWatcher (triggerBuild_enter ex_idle)) = 1
   \<and> onModuleEvent True (triggerBuild_enter ex_idle) = triggerBuild_enter ex_idle
   \<and> pending (fs_change ''node_modules/lib/index.js'' True (triggerBuild_enter ex_idle)) = 0
   \<and> fs_change ''src/index.ts'' True
        (triggerBuild_invoke (triggerBuild_close_module
           (fs_change ''node_modules/lib/index.js'' True (triggerBuild_enter ex_idle))))
      = triggerBuild_invoke (triggerBuild_close_module
           (fs_change ''node_modules/lib/index.js'' True (triggerBuild_enter ex_idle)))
   \<and> timer_fire (snd (triggerBuild_finish (Some ex_build) True
        (fs_change ''src/index.ts'' True
           (triggerBuild_invoke (triggerBuild_close_module
              (fs_change ''node_modules/lib/index.js'' True (triggerBuild_enter ex_idle)))))))
      = \<lparr>rebuild = Incremental 1, running = False, watchedInputs = {}, watchedModules = {},
         inputWatcher = \<lparr>watched = {''src/index.ts'', ''src/style.css''}, listeners = 1,
           is_closed = False\<rparr>,
         moduleWatcher = \<lparr>watched = {''node_modules/lib''}, listeners = 1, is_closed = False\<rparr>,
         timers = 0, pending = 0, waiters = 0, invoked = [Incremental 1, InitialBuild]\<rparr>
   \<and> run_pending
        \<lparr>rebuild = Incremental 1, running = False, watchedInputs = {}, watchedModules = {},
         inputWatcher = \<lparr>watched = {''src/index.ts'', ''src/style.css''}, listeners = 1,
           is_closed = False\<rparr>,
         moduleWatcher = \<lparr>watched = {''node_modules/lib''}, listeners = 1, is_closed = False\<rparr>,
         timers = 0, pending = 0, waiters = 0, invoked = [Incremental 1, InitialBuild]\<rparr>
      = \<lparr>rebuild = Incremental 1, running = False, watchedInputs = {}, watchedModules = {},
         inputWatcher = \<lparr>watched = {''src/index.ts'', ''src/style.css''}, listeners = 1,
           is_closed = False\<rparr>,
         moduleWatcher = \<lparr>watched = {''node_modules/lib''}, listeners = 1, is_closed = False\<rparr>,
         timers = 0, pending = 0, waiters = 0, invoked = [Incremental 1, InitialBuild]\<rparr>"
proof -
  have f: "fs_change ''node_modules/lib/index.js'' True (triggerBuild_enter ex_idle)
      = \<lparr>rebuild = Incremental 1, running = True, watchedInputs = {}, watchedModules = {},
         inputWatcher = \<lparr>watched = {}, listeners = 0, is_closed = True\<rparr>,
         moduleWatcher = \<lparr>watched = {''node_modules/lib''}, listeners = 0, is_closed = False\<rparr>,
         timers = 0, pending = 0, waiters = 0, invoked = [InitialBuild]\<rparr>"
    unfolding ex_enter_eval
    by (simp add: fs_change_def reports_input_def reports_module_def below_within_def
        onModuleEvent_def Let_def)
  have e: "running (triggerBuild_enter ex_idle)
   \<and> reports_module (moduleWatcher (triggerBuild_enter ex_idle)) ''node_modules/lib/index.js''
   \<and> listeners (moduleWatcher (triggerBuild_enter ex_idle)) = 1
   \<and> onModuleEvent True (triggerBuild_enter ex_idle) = triggerBuild_enter ex_idle"
    unfolding ex_enter_eval
    by (simp add: reports_module_def below_within_def onModuleEvent_def)
  have i: "triggerBuild_invoke (triggerBuild_close_module
        \<lparr>rebuild = Incremental 1, running = True, watchedInputs = {}, watchedModules = {},
         inputWatcher = \<lparr>watched = {}, listeners = 0, is_closed = True\<rparr>,
         moduleWatcher = \<lparr>watched = {''node_modules/lib''}, listeners = 0, is_closed = False\<rparr>,
         timers = 0, pending = 0, waiters = 0, invoked = [InitialBuild]\<rparr>)
      = \<lparr>rebuild = Incremental 1, running = True, watchedInputs = {}, watchedModules = {},
         inputWatcher = \<lparr>watched = {}, listeners = 0, is_closed = True\<rparr>,
         moduleWatcher = \<lparr>watched = {}, listeners = 0, is_closed = True\<rparr>,
         timers = 0, pending = 0, waiters = 0, invoked = [Incremental 1, InitialBuild]\<rparr>"
    by (simp add: triggerBuild_invoke_def triggerBuild_close_module_def w_close_def)
  have c: "fs_change ''src/index.ts'' True
        \<lparr>rebuild = Incremental 1, running = True, watchedInputs = {}, watchedModules = {},
         inputWatcher = \<lparr>watched = {}, listeners = 0, is_closed = True\<rparr>,
         moduleWatcher = \<lparr>watched = {}, listeners = 0, is_closed = True\<rparr>,
         timers = 0, pending = 0, waiters = 0, invoked = [Incremental 1, InitialBuild]\<rparr>
      = \<lparr>rebuild = Incremental 1, running = True, watchedInputs = {}, watchedModules = {},
         inputWatcher = \<lparr>watched = {}, listeners = 0, is_closed = True\<rparr>,
         moduleWatcher = \<lparr>watched = {}, listeners = 0, is_closed = True\<rparr>,
         timers = 0, pending = 0, waiters = 0, invoked = [Incremental 1, InitialBuild]\<rparr>"
    by (simp add: fs_change_def reports_input_def reports_module_def Let_def)
  show ?thesis
    unfolding f i c
    using e
    by (simp add: ex_build_def triggerBuild_finish_def validateResult_def scan_ex timer_fire_def
        startWatchers_def emit_end_def w_add_def w_unwatch_def w_once_def
        run_pending_def Let_def)
qed

section \<open>Properties of the request gate\<close>

text \<open>
  C5, as amended. A request whose URL parses and that the live-reload handler does not
  take awaits \<open>wait()\<close> first: it is parked while a build is in flight and answered
  at once otherwise. When the URL handed to the static handlers is \<open>u\<close>, the answer
  comes from the secondary static root when one is configured and has \<open>u\<close>; else from the
  build output directory when that has \<open>u\<close>; else it is the primary HTML output in
  rewrite mode and not-found otherwise.
\<close>

theorem request_gate_resolution:
  "(parseUrl cfg url = Some pathname
      \<and> \<not> (case lrHandler cfg of None \<Rightarrow> False | Some h \<Rightarrow> h url) \<longrightarrow>
      onRequest cfg True (Some url) = Parked
      \<and> onRequest cfg False (Some url) = Answered (handleRequest_settled cfg url pathname))
   \<and> ((if publicPath cfg \<noteq> [] then stripPublicPath cfg pathname else Some url) = Some u \<longrightarrow>
       (let fallback = (if rewrite cfg then IndexHtml (indexOutputPath cfg) else NotFound404)
        in (\<forall>h r. servedirHandler cfg = Some h \<and> h u = Some r
               \<longrightarrow> handleRequest_settled cfg url pathname = r)
         \<and> (\<forall>r. (servedirHandler cfg = None \<or> (\<exists>h. servedirHandler cfg = Some h \<and> h u = None))
               \<and> outputHandler cfg u = Some r \<longrightarrow> handleRequest_settled cfg url pathname = r)
         \<and> ((servedirHandler cfg = None \<or> (\<exists>h. servedirHandler cfg = Some h \<and> h u = None))
               \<and> outputHandler cfg u = None \<longrightarrow> handleRequest_settled cfg url pathname = fallback)))"
proof -
  have gate: "onRequest cfg True (Some url) = Parked
      \<and> onRequest cfg False (Some url) = Answered (handleRequest_settled cfg url pathname)"
    if "parseUrl cfg url = Some pathname"
      "\<not> (case lrHandler cfg of None \<Rightarrow> False | Some h \<Rightarrow> h url)"
    using that by (simp add: onRequest_def Let_def)
  have order: "(let fallback = (if rewrite cfg then IndexHtml (indexOutputPath cfg) else NotFound404)
        in (\<forall>h r. servedirHandler cfg = Some h \<and> h u = Some r
               \<longrightarrow> handleRequest_settled cfg url pathname = r)
         \<and> (\<forall>r. (servedirHandler cfg = None \<or> (\<exists>h. servedirHandler cfg = Some h \<and> h u = None))
               \<and> outputHandler cfg u = Some r \<longrightarrow> handleRequest_settled cfg url pathname = r)
         \<and> ((servedirHandler cfg = None \<or> (\<exists>h. servedirHandler cfg = Some h \<and> h u = None))
               \<and> outputHandler cfg u = None \<longrightarrow> handleRequest_settled cfg url pathname = fallback))"
    if "(if publicPath cfg \<noteq> [] then stripPublicPath cfg pathname else Some url) = Some u"
    using that
    by (auto simp: handleRequest_settled_def staticHandler_def Let_def split: if_splits)
  show ?thesis using gate order by blast
qed

theorem request_gate_resolution_witness:
  "parseUrl ex_cfg ''/index.js'' = Some ''/index.js''
   \<and> onRequest ex_cfg True (Some ''/index.js'') = Parked
   \<and> onRequest ex_cfg False (Some ''/index.js'') = Answered (File ''public'' ''/index.js'')
   \<and> handleRequest_settled ex_cfg ''/logo.png'' ''/logo.png'' = File ''public'' ''/logo.png''
   \<and> handleRequest_settled (ex_cfg\<lparr>servedirHandler := None\<rparr>) ''/index.js'' ''/index.js''
        = File ''dist'' ''/index.js''
   \<and> handleRequest_settled ex_cfg ''/app/route'' ''/app/route'' = IndexHtml ''index.html''
   \<and> handleRequest_settled (ex_cfg\<lparr>rewrite := False\<rparr>) ''/app/route'' ''/app/route'' = NotFound404"
proof -
  have pu: "parseUrl ex_cfg ''/index.js'' = Some ''/index.js''" by (simp add: ex_cfg_def)
  have lr: "\<not> (case lrHandler ex_cfg of None \<Rightarrow> False | Some h \<Rightarrow> h ''/index.js'')"
    by (simp add: ex_cfg_def)
  have g: "onRequest ex_cfg True (Some ''/index.js'') = Parked
      \<and> onRequest ex_cfg False (Some ''/index.js'')
          = Answered (handleRequest_settled ex_cfg ''/index.js'' ''/index.js'')"
    using request_gate_resolution[where cfg = ex_cfg and url = "''/index.js''"
        and pathname = "''/index.js''"] pu lr by blast
  show ?thesis
    using g pu
    by (simp add: handleRequest_settled_def staticHandler_def ex_cfg_def)
qed

text \<open>
  C5 as stated fails on the order: for a file that both directories hold, the server
  answers from the secondary static root, the order of the specification from the build
  output directory.
\<close>

theorem resolution_order_counterexample:
  "handleRequest_settled ex_cfg ''/index.js'' ''/index.js'' = File ''public'' ''/index.js''
   \<and> spec_resolution ex_cfg ''/index.js'' = File ''dist'' ''/index.js''"
  by (simp add: handleRequest_settled_def staticHandler_def spec_resolution_def ex_cfg_def)

text \<open>A request target that does not parse is not gated: the callback throws.\<close>

lemma unparsable_request_throws:
  "onRequest ex_cfg building (Some ''//'') = Threw"
  by (simp add: onRequest_def ex_cfg_def)

end
